theory Spec2Isabelle
  imports Complex_Main "HOL-Library.Word"
begin

section \<open>netstat-monitor: the sampling engine of \<open>netstat_monitor.c\<close>\<close>

text \<open>
  A shallow embedding of \<open>src/netstat_monitor.c\<close>. C strings are the lists of their
  bytes before the terminating NUL. \<open>uint64_t\<close> and \<open>unsigned long long\<close> are
  \<open>64 word\<close>; the \<open>int\<close> loop counters and the fields of \<open>struct timespec\<close> are
  mathematical integers (a bounded run keeps the counters below \<open>INT_MAX\<close>). Functions
  that write through a pointer return the new value of the pointee next to their result.
\<close>

subsection \<open>Data model\<close>

type_synonym u64 = "64 word"

definition MAX_LINE_LEN :: nat where
  "MAX_LINE_LEN = 1024"

definition MAX_IFACE_LEN :: nat where
  "MAX_IFACE_LEN = 64"

definition HEADER_INTERVAL :: int where
  "HEADER_INTERVAL = 20"

record timespec =
  tv_sec :: int
  tv_nsec :: int

record net_stats =
  interface :: string
  rx_bytes :: u64
  rx_packets :: u64
  rx_errors :: u64
  rx_drops :: u64
  tx_bytes :: u64
  tx_packets :: u64
  tx_errors :: u64
  tx_drops :: u64
  timestamp :: timespec
  valid :: bool

text \<open>The zero-initialised structure \<open>net_stats_t s = {0}\<close>.\<close>

definition zero_stats :: net_stats where
  "zero_stats = \<lparr> interface = [], rx_bytes = 0, rx_packets = 0, rx_errors = 0,
     rx_drops = 0, tx_bytes = 0, tx_packets = 0, tx_errors = 0, tx_drops = 0,
     timestamp = \<lparr> tv_sec = 0, tv_nsec = 0 \<rparr>, valid = False \<rparr>"

subsection \<open>The C library functions the parser calls\<close>

text \<open>
  \<open>is_blank\<close> is the test \<open>c == ' ' || c == '\t'\<close> of the label trimming loops,
  \<open>is_delim\<close> membership in the \<open>strtok_r\<close> delimiter string \<open>" \t\n\r"\<close>, and
  \<open>isspace\<close>, \<open>isdigit\<close> are those of the C locale.
\<close>

definition is_blank :: "char \<Rightarrow> bool" where
  "is_blank c \<longleftrightarrow> c = CHR '' '' \<or> c = CHR 0x09"

definition is_delim :: "char \<Rightarrow> bool" where
  "is_delim c \<longleftrightarrow> c = CHR '' '' \<or> c = CHR 0x09 \<or> c = CHR 0x0A \<or> c = CHR 0x0D"

definition isspace :: "char \<Rightarrow> bool" where
  "isspace c \<longleftrightarrow> c = CHR '' '' \<or> c = CHR 0x09 \<or> c = CHR 0x0A \<or> c = CHR 0x0B
     \<or> c = CHR 0x0C \<or> c = CHR 0x0D"

definition isdigit :: "char \<Rightarrow> bool" where
  "isdigit c \<longleftrightarrow> c \<in> set ''0123456789''"

definition digit_val :: "char \<Rightarrow> int" where
  "digit_val c = of_char c - 48"

definition dec_val :: "string \<Rightarrow> int" where
  "dec_val ds = foldl (\<lambda>a c. 10 * a + digit_val c) 0 ds"

text \<open>
  \<open>strtoull(nptr, &endptr, 10)\<close>: the converted value, the rest of the string at
  \<open>endptr\<close>, and whether \<open>errno\<close> was set to \<open>ERANGE\<close>. Leading white space and one
  sign are skipped, a minus sign negates the value in \<open>unsigned long long\<close>, a value
  above \<open>ULLONG_MAX\<close> gives \<open>ULLONG_MAX\<close> and \<open>ERANGE\<close>, and without any digit
  nothing is consumed.
\<close>

definition strtoull :: "string \<Rightarrow> u64 \<times> string \<times> bool" where
  "strtoull nptr =
     (let s1 = dropWhile isspace nptr;
          negative = (s1 \<noteq> [] \<and> hd s1 = CHR ''-'');
          s2 = (if s1 \<noteq> [] \<and> (hd s1 = CHR ''-'' \<or> hd s1 = CHR ''+'') then tl s1 else s1);
          digits = takeWhile isdigit s2;
          endptr = dropWhile isdigit s2;
          n = dec_val digits
      in if digits = [] then (0, nptr, False)
         else if n > 18446744073709551615 then (- 1, endptr, True)
         else (if negative then - word_of_int n else word_of_int n, endptr, False))"

text \<open>
  \<open>strchr(s, c)\<close> followed by \<open>*p = '\0'\<close>: the text before the first \<open>c\<close> and the
  text from \<open>p + 1\<close> on.
\<close>

definition strchr :: "string \<Rightarrow> char \<Rightarrow> (string \<times> string) option" where
  "strchr s c =
     (if c \<in> set s then Some (takeWhile (\<lambda>x. x \<noteq> c) s, tl (dropWhile (\<lambda>x. x \<noteq> c) s))
      else None)"

text \<open>
  One call of \<open>strtok_r\<close> on the text at the save pointer: the next token and the new
  save pointer, or \<open>None\<close> for the NULL result.
\<close>

definition strtok_r :: "string \<Rightarrow> (string \<times> string) option" where
  "strtok_r s =
     (let start = dropWhile is_delim s
      in if start = [] then None
         else Some (takeWhile (\<lambda>c. \<not> is_delim c) start,
                    drop 1 (dropWhile (\<lambda>c. \<not> is_delim c) start)))"

subsection \<open>Delta and rate engine\<close>

text \<open>\<open>safe_delta\<close>, lines 105--111. All arithmetic is that of \<open>uint64_t\<close>.\<close>

definition safe_delta :: "u64 \<Rightarrow> u64 \<Rightarrow> u64" where
  "safe_delta current previous =
     (if current \<ge> previous then current - previous
      else (0x100000000 - previous) + current)"

text \<open>
  The arithmetic of \<open>double\<close> is a parameter of the model: a conversion from integers
  (also used for the literals \<open>0.0\<close>, \<open>1.0\<close>, \<open>1024.0\<close> and \<open>1e9\<close>), the two
  comparisons, addition, division, and the \<open>printf\<close> conversion \<open>%.Nf\<close>.
\<close>

record 'd dbl =
  d_of_int :: "int \<Rightarrow> 'd"
  d_le :: "'d \<Rightarrow> 'd \<Rightarrow> bool"
  d_lt :: "'d \<Rightarrow> 'd \<Rightarrow> bool"
  d_add :: "'d \<Rightarrow> 'd \<Rightarrow> 'd"
  d_div :: "'d \<Rightarrow> 'd \<Rightarrow> 'd"
  d_print :: "nat \<Rightarrow> 'd \<Rightarrow> string"

definition timespec_diff :: "'d dbl \<Rightarrow> timespec \<Rightarrow> timespec \<Rightarrow> 'd" where
  "timespec_diff F start end =
     d_add F (d_of_int F (tv_sec end - tv_sec start))
       (d_div F (d_of_int F (tv_nsec end - tv_nsec start)) (d_of_int F 1000000000))"

text \<open>\<open>calculate_rate\<close>, lines 116--121.\<close>

definition calculate_rate :: "'d dbl \<Rightarrow> u64 \<Rightarrow> 'd \<Rightarrow> 'd" where
  "calculate_rate F delta elapsed_seconds =
     (if d_le F elapsed_seconds (d_of_int F 0) then d_of_int F 0
      else d_div F (d_of_int F (uint delta)) elapsed_seconds)"

subsection \<open>Formatting\<close>

text \<open>The \<open>printf\<close> conversion \<open>%llu\<close>, without field width.\<close>

definition digit_char :: "int \<Rightarrow> char" where
  "digit_char d = ''0123456789'' ! nat d"

function decimal_digits :: "int \<Rightarrow> string" where
  "decimal_digits n =
     (if n < 10 then [digit_char n]
      else decimal_digits (n div 10) @ [digit_char (n mod 10)])"
  by pat_completeness auto
termination
  by (relation "measure nat") auto

declare decimal_digits.simps [simp del]

definition print_llu :: "u64 \<Rightarrow> string" where
  "print_llu w = decimal_digits (uint w)"

text \<open>
  The scaling loops of \<open>format_bytes\<close> and \<open>format_rate\<close>, and \<open>snprintf\<close> into a
  buffer of 32 bytes.
\<close>

function scale_units :: "'d dbl \<Rightarrow> nat \<Rightarrow> 'd \<Rightarrow> nat \<Rightarrow> 'd \<times> nat" where
  "scale_units F limit val unit_idx =
     (if d_le F (d_of_int F 1024) val \<and> unit_idx < limit
      then scale_units F limit (d_div F val (d_of_int F 1024)) (unit_idx + 1)
      else (val, unit_idx))"
  by pat_completeness auto
termination
  by (relation "measure (\<lambda>(F, limit, val, unit_idx). limit - unit_idx)") auto

declare scale_units.simps [simp del]

definition snprintf32 :: "string \<Rightarrow> string" where
  "snprintf32 s = take 31 s"

definition format_bytes :: "'d dbl \<Rightarrow> u64 \<Rightarrow> string" where
  "format_bytes F bytes =
     (case scale_units F 4 (d_of_int F (uint bytes)) 0 of
        (val, unit_idx) \<Rightarrow>
          if unit_idx = 0 then snprintf32 (print_llu bytes @ '' '' @ [''B'', ''KB'', ''MB'', ''GB'', ''TB''] ! unit_idx)
          else snprintf32 (d_print F 1 val @ '' '' @ [''B'', ''KB'', ''MB'', ''GB'', ''TB''] ! unit_idx))"

definition format_rate :: "'d dbl \<Rightarrow> 'd \<Rightarrow> string" where
  "format_rate F rate =
     (case scale_units F 3 rate 0 of
        (val, unit_idx) \<Rightarrow>
          if d_lt F rate (d_of_int F 1) then snprintf32 ''0 B/s''
          else if unit_idx = 0
            then snprintf32 (d_print F 0 val @ '' '' @ [''B/s'', ''KB/s'', ''MB/s'', ''GB/s''] ! unit_idx)
            else snprintf32 (d_print F 1 val @ '' '' @ [''B/s'', ''KB/s'', ''MB/s'', ''GB/s''] ! unit_idx))"

subsection \<open>Line parser\<close>

text \<open>
  The \<open>while (token && token_count < 16)\<close> loop of \<open>parse_interface_line\<close>: \<open>None\<close>
  is the \<open>return false\<close> inside the loop, \<open>Some values\<close> the values stored when the
  loop is left.
\<close>

function token_loop :: "(string \<times> string) option \<Rightarrow> u64 list \<Rightarrow> u64 list option" where
  "token_loop None values = Some values"
| "token_loop (Some (token, saveptr)) values =
     (if length values < 16 then
        (case strtoull token of
           (v, endptr, erange) \<Rightarrow>
             if erange \<or> endptr \<noteq> [] then None
             else token_loop (strtok_r saveptr) (values @ [v]))
      else Some values)"
  by pat_completeness auto
termination
  by (relation "measure (\<lambda>(tok, values). 16 - length values)") auto

text \<open>
  The label of a row: leading blanks skipped, copied into \<open>iface_name[64]\<close>, trailing
  blanks removed.
\<close>

definition trim_label :: "string \<Rightarrow> string" where
  "trim_label s =
     (let iface_start = dropWhile is_blank s;
          iface_name = take (MAX_IFACE_LEN - 1) iface_start
      in rev (dropWhile is_blank (rev iface_name)))"

text \<open>
  \<open>parse_interface_line\<close>, lines 170--236. The result pairs the returned \<open>bool\<close> with
  the structure behind \<open>stats\<close>.
\<close>

definition parse_interface_line :: "string \<Rightarrow> string \<Rightarrow> net_stats \<Rightarrow> bool \<times> net_stats" where
  "parse_interface_line line iface stats =
     (case strchr (take (MAX_LINE_LEN - 1) line) CHR '':'' of
        None \<Rightarrow> (False, stats)
      | Some (label, token_ptr) \<Rightarrow>
          if trim_label label \<noteq> iface then (False, stats)
          else
            (case token_loop (strtok_r token_ptr) [] of
               None \<Rightarrow> (False, stats)
             | Some values \<Rightarrow>
                 if length values < 16 then (False, stats)
                 else (True, stats
                   \<lparr> interface := take (MAX_IFACE_LEN - 1) iface,
                     rx_bytes := values ! 0,
                     rx_packets := values ! 1,
                     rx_errors := values ! 2,
                     rx_drops := values ! 3,
                     tx_bytes := values ! 8,
                     tx_packets := values ! 9,
                     tx_errors := values ! 10,
                     tx_drops := values ! 11,
                     valid := True \<rparr>)))"

subsection \<open>Counter source reader\<close>

text \<open>
  \<open>fgets(line, n, fp)\<close> on the unread contents of the file: at most \<open>n - 1\<close> bytes, up to
  and including the first newline; \<open>None\<close> at end of file.
\<close>

fun fgets_chars :: "nat \<Rightarrow> string \<Rightarrow> string \<times> string" where
  "fgets_chars 0 fp = ([], fp)"
| "fgets_chars (Suc n) [] = ([], [])"
| "fgets_chars (Suc n) (c # fp) =
     (if c = CHR 0x0A then ([c], fp)
      else (case fgets_chars n fp of (buf, fp') \<Rightarrow> (c # buf, fp')))"

definition fgets :: "nat \<Rightarrow> string \<Rightarrow> (string \<times> string) option" where
  "fgets n fp = (if fp = [] then None else Some (fgets_chars (n - 1) fp))"

lemma fgets_chars_length: "length (snd (fgets_chars n fp)) \<le> length fp"
  by (induction n fp rule: fgets_chars.induct) (auto split: prod.splits)

lemma fgets_chars_Suc_length:
  "length (snd (fgets_chars (Suc n) (c # cs))) \<le> length cs"
  using fgets_chars_length [of n cs] by (auto split: prod.splits)

lemma fgets_shorter:
  assumes "fgets MAX_LINE_LEN fp = Some (line, fp')"
  shows "length fp' < length fp"
proof -
  from assms obtain c cs where fp: "fp = c # cs"
    by (cases fp) (auto simp: fgets_def)
  have n: "MAX_LINE_LEN - 1 = Suc 1022"
    by (simp add: MAX_LINE_LEN_def)
  from assms have "fp' = snd (fgets_chars (Suc 1022) (c # cs))"
    unfolding fgets_def n fp by (simp split: if_splits)
  then show ?thesis
    using fgets_chars_Suc_length [of 1022 c cs] by (simp add: fp)
qed

text \<open>
  The \<open>while (fgets(...))\<close> loop of \<open>read_net_stats\<close>, lines 253--271. \<open>clock\<close> is
  the result of \<open>clock_gettime\<close>, \<open>None\<close> when it fails.
\<close>

function read_loop :: "string \<Rightarrow> timespec option \<Rightarrow> string \<Rightarrow> nat \<Rightarrow> net_stats \<Rightarrow> bool \<times> net_stats"
  where
  "read_loop iface clock fp line_num stats =
     (case fgets MAX_LINE_LEN fp of
        None \<Rightarrow> (False, stats)
      | Some (line, fp') \<Rightarrow>
          if line_num + 1 \<le> 2 then read_loop iface clock fp' (line_num + 1) stats
          else
            (case parse_interface_line line iface stats of
               (ok, stats') \<Rightarrow>
                 if ok then
                   (True, stats'\<lparr> timestamp :=
                      (case clock of Some ts \<Rightarrow> ts | None \<Rightarrow> \<lparr> tv_sec = 0, tv_nsec = 0 \<rparr>) \<rparr>)
                 else read_loop iface clock fp' (line_num + 1) stats'))"
  by pat_completeness auto
termination
  by (relation "measure (\<lambda>(iface, clock, fp, line_num, stats). length fp)")
    (auto simp: fgets_shorter)

declare read_loop.simps [simp del]

text \<open>
  \<open>read_net_stats\<close>, lines 242--275. The contents of \<open>/proc/net/dev\<close> are an input,
  \<open>None\<close> when \<open>fopen\<close> fails. The messages on \<open>stderr\<close> are left out.
\<close>

definition read_net_stats ::
  "string \<Rightarrow> string option \<Rightarrow> timespec option \<Rightarrow> net_stats \<Rightarrow> bool \<times> net_stats" where
  "read_net_stats iface proc_net_dev clock stats =
     (case proc_net_dev of
        None \<Rightarrow> (False, stats)
      | Some fp \<Rightarrow> read_loop iface clock fp 0 stats)"

subsection \<open>Rendering\<close>

text \<open>
  The arguments of the final \<open>printf\<close> of \<open>print_stats\<close>, one field per column.
  \<open>rate_strings\<close> is the body of \<open>if (previous && previous->valid)\<close>.
\<close>

record stats_row =
  col_timestamp :: string
  col_interface :: string
  col_rx_bytes :: string
  col_rx_rate :: string
  col_rx_packets :: u64
  col_rx_pkt_rate :: string
  col_rx_errors :: u64
  col_rx_drops :: u64
  col_tx_bytes :: string
  col_tx_rate :: string
  col_tx_packets :: u64
  col_tx_pkt_rate :: string
  col_tx_errors :: u64
  col_tx_drops :: u64

definition rate_strings :: "'d dbl \<Rightarrow> net_stats \<Rightarrow> net_stats \<Rightarrow> 'd \<Rightarrow> string \<times> string \<times> string \<times> string"
  where
  "rate_strings F current previous elapsed =
     (let rx_delta = safe_delta (rx_bytes current) (rx_bytes previous);
          tx_delta = safe_delta (tx_bytes current) (tx_bytes previous);
          rx_pkt_delta = safe_delta (rx_packets current) (rx_packets previous);
          tx_pkt_delta = safe_delta (tx_packets current) (tx_packets previous);
          rx_rate = calculate_rate F rx_delta elapsed;
          tx_rate = calculate_rate F tx_delta elapsed;
          rx_pkt_rate = calculate_rate F rx_pkt_delta elapsed;
          tx_pkt_rate = calculate_rate F tx_pkt_delta elapsed
      in (format_rate F rx_rate, format_rate F tx_rate,
          snprintf32 (d_print F 0 rx_pkt_rate), snprintf32 (d_print F 0 tx_pkt_rate)))"

definition print_stats ::
  "'d dbl \<Rightarrow> string \<Rightarrow> net_stats \<Rightarrow> net_stats option \<Rightarrow> 'd \<Rightarrow> stats_row" where
  "print_stats F now current previous elapsed =
     (let rx_bytes_str = format_bytes F (rx_bytes current);
          tx_bytes_str = format_bytes F (tx_bytes current);
          strs = (case previous of
                    None \<Rightarrow> (''-'', ''-'', ''-'', ''-'')
                  | Some prev \<Rightarrow>
                      if valid prev then rate_strings F current prev elapsed
                      else (''-'', ''-'', ''-'', ''-''))
      in (case strs of
            (rx_rate_str, tx_rate_str, rx_pkt_rate_str, tx_pkt_rate_str) \<Rightarrow>
              \<lparr> col_timestamp = now,
                col_interface = interface current,
                col_rx_bytes = rx_bytes_str,
                col_rx_rate = rx_rate_str,
                col_rx_packets = rx_packets current,
                col_rx_pkt_rate = rx_pkt_rate_str,
                col_rx_errors = rx_errors current,
                col_rx_drops = rx_drops current,
                col_tx_bytes = tx_bytes_str,
                col_tx_rate = tx_rate_str,
                col_tx_packets = tx_packets current,
                col_tx_pkt_rate = tx_pkt_rate_str,
                col_tx_errors = tx_errors current,
                col_tx_drops = tx_drops current \<rparr>))"

subsection \<open>Poll loop\<close>

text \<open>
  The loop of \<open>main\<close>, lines 443--471, over an explicit environment. Every pass reads
  one \<open>tick\<close>: the contents of the counter source and the clocks at that moment, and
  whether a handled \<open>SIGINT\<close> or \<open>SIGTERM\<close> arrives while the pass samples, after the
  test on line 468 but before \<open>sleep\<close> is entered, or while \<open>sleep\<close> blocks. The
  handler clears \<open>keep_running\<close>; a signal handled while \<open>sleep\<close> blocks makes it
  return early. Calls to the outside are recorded in a trace: \<open>Ev_sleep n b\<close> is
  \<open>sleep(n)\<close>, with \<open>b\<close> true when it was cut short.
\<close>

datatype event =
    Ev_read
  | Ev_warning
  | Ev_row stats_row
  | Ev_header
  | Ev_sleep int bool

record config =
  cfg_interface :: string
  cfg_interval :: int
  max_iterations :: int

record tick =
  proc_net_dev :: "string option"
  mono_clock :: "timespec option"
  wall_clock :: string
  sig_sampling :: bool
  sig_before_sleep :: bool
  sig_sleep :: bool

record mon_state =
  keep_running :: bool
  current_stats :: net_stats
  previous_stats :: net_stats
  iteration :: int
  lines_since_header :: int
  trace :: "event list"

definition init_state :: mon_state where
  "init_state = \<lparr> keep_running = True, current_stats = zero_stats,
     previous_stats = zero_stats, iteration = 0, lines_since_header = 0, trace = [] \<rparr>"

definition loop_cond :: "config \<Rightarrow> mon_state \<Rightarrow> bool" where
  "loop_cond cfg s \<longleftrightarrow>
     keep_running s \<and> (max_iterations cfg < 0 \<or> iteration s < max_iterations cfg)"

definition sleep :: "config \<Rightarrow> tick \<Rightarrow> mon_state \<Rightarrow> mon_state" where
  "sleep cfg e s =
     s \<lparr> keep_running := keep_running s \<and> \<not> sig_before_sleep e \<and> \<not> sig_sleep e,
         trace := trace s @ [Ev_sleep (cfg_interval cfg) (sig_sleep e)] \<rparr>"

definition loop_body :: "'d dbl \<Rightarrow> config \<Rightarrow> tick \<Rightarrow> mon_state \<Rightarrow> mon_state" where
  "loop_body F cfg e s =
     (case read_net_stats (cfg_interface cfg) (proc_net_dev e) (mono_clock e) (current_stats s) of
        (ok, cur) \<Rightarrow>
          let s1 = s \<lparr> current_stats := cur,
                       keep_running := keep_running s \<and> \<not> sig_sampling e,
                       trace := trace s @ [Ev_read] \<rparr>
          in if \<not> ok then sleep cfg e (s1 \<lparr> trace := trace s1 @ [Ev_warning] \<rparr>)
             else
               let elapsed = (if valid (previous_stats s1)
                              then timespec_diff F (timestamp (previous_stats s1))
                                     (timestamp (current_stats s1))
                              else d_of_int F 0);
                   row = print_stats F (wall_clock e) (current_stats s1)
                           (if valid (previous_stats s1) then Some (previous_stats s1) else None)
                           elapsed;
                   s2 = s1 \<lparr> trace := trace s1 @ [Ev_row row] \<rparr>;
                   s3 = s2 \<lparr> previous_stats := current_stats s2 \<rparr>;
                   s4 = s3 \<lparr> iteration := iteration s3 + 1,
                              lines_since_header := lines_since_header s3 + 1 \<rparr>;
                   s5 = (if lines_since_header s4 \<ge> HEADER_INTERVAL
                         then s4 \<lparr> trace := trace s4 @ [Ev_header], lines_since_header := 0 \<rparr>
                         else s4)
               in if loop_cond cfg s5 then sleep cfg e s5 else s5)"

text \<open>
  The loop consumes one tick per pass. \<open>None\<close> means that the given ticks ran out while
  the loop condition still held.
\<close>

fun poll_loop :: "'d dbl \<Rightarrow> config \<Rightarrow> tick list \<Rightarrow> mon_state \<Rightarrow> mon_state option" where
  "poll_loop F cfg [] s = (if loop_cond cfg s then None else Some s)"
| "poll_loop F cfg (e # es) s =
     (if loop_cond cfg s then poll_loop F cfg es (loop_body F cfg e s) else Some s)"

subsection \<open>Notions used to state the properties\<close>

text \<open>
  The label and the body of a row as the parser sees them, and the tokens that
  successive calls of \<open>strtok_r\<close> deliver.
\<close>

definition row_label :: "string \<Rightarrow> string option" where
  "row_label line =
     (case strchr (take (MAX_LINE_LEN - 1) line) CHR '':'' of
        None \<Rightarrow> None
      | Some (label, token_ptr) \<Rightarrow> Some (trim_label label))"

definition row_body :: "string \<Rightarrow> string" where
  "row_body line =
     (case strchr (take (MAX_LINE_LEN - 1) line) CHR '':'' of
        None \<Rightarrow> []
      | Some (label, token_ptr) \<Rightarrow> token_ptr)"

lemma strtok_r_shorter:
  assumes "strtok_r s = Some (t, r)"
  shows "length r < length s"
proof -
  let ?start = "dropWhile is_delim s"
  from assms have ne: "?start \<noteq> []"
    and r: "r = drop 1 (dropWhile (\<lambda>c. \<not> is_delim c) ?start)"
    by (auto simp: strtok_r_def Let_def split: if_splits)
  have "length (dropWhile (\<lambda>c. \<not> is_delim c) ?start) \<le> length ?start"
    by (rule length_dropWhile_le)
  moreover have "\<not> is_delim (hd ?start)"
    using ne by (metis hd_dropWhile)
  then have "dropWhile (\<lambda>c. \<not> is_delim c) ?start = dropWhile (\<lambda>c. \<not> is_delim c) (tl ?start)"
    using ne by (cases ?start) auto
  then have "length (dropWhile (\<lambda>c. \<not> is_delim c) ?start) \<le> length (tl ?start)"
    by (metis length_dropWhile_le)
  moreover have "length ?start \<le> length s"
    by (rule length_dropWhile_le)
  ultimately show ?thesis
    using ne r by (cases ?start) auto
qed

function tokens :: "string \<Rightarrow> string list" where
  "tokens s = (case strtok_r s of None \<Rightarrow> [] | Some (t, r) \<Rightarrow> t # tokens r)"
  by pat_completeness auto
termination
  by (relation "measure length") (auto simp: strtok_r_shorter)

declare tokens.simps [simp del]

definition token_ok :: "string \<Rightarrow> bool" where
  "token_ok t = (case strtoull t of (v, endptr, erange) \<Rightarrow> \<not> erange \<and> endptr = [])"

definition token_value :: "string \<Rightarrow> u64" where
  "token_value t = fst (strtoull t)"

definition unsigned_token :: "string \<Rightarrow> bool" where
  "unsigned_token t \<longleftrightarrow>
     t \<noteq> [] \<and> list_all isdigit t \<and> dec_val t \<le> 18446744073709551615"

definition canonical_token :: "string \<Rightarrow> bool" where
  "canonical_token t \<longleftrightarrow> t = ''0'' \<or> (t \<noteq> [] \<and> hd t \<noteq> CHR ''0'')"

definition counters :: "net_stats \<Rightarrow> u64 list" where
  "counters s = [rx_bytes s, rx_packets s, rx_errors s, rx_drops s,
                 tx_bytes s, tx_packets s, tx_errors s, tx_drops s]"

definition rate_columns :: "stats_row \<Rightarrow> string list" where
  "rate_columns row = [col_rx_rate row, col_rx_pkt_rate row, col_tx_rate row, col_tx_pkt_rate row]"

definition read_count :: "event list \<Rightarrow> nat" where
  "read_count evs = length (filter (\<lambda>ev. ev = Ev_read) evs)"

definition row_count :: "event list \<Rightarrow> nat" where
  "row_count evs = length (filter (\<lambda>ev. case ev of Ev_row r \<Rightarrow> True | _ \<Rightarrow> False) evs)"

definition read_ok :: "config \<Rightarrow> tick \<Rightarrow> bool" where
  "read_ok cfg e =
     fst (read_net_stats (cfg_interface cfg) (proc_net_dev e) (mono_clock e) zero_stats)"

definition quiet :: "tick \<Rightarrow> bool" where
  "quiet e \<longleftrightarrow> \<not> sig_sampling e \<and> \<not> sig_before_sleep e \<and> \<not> sig_sleep e"

subsection \<open>An exact interpretation of the arithmetic, and sample inputs\<close>

text \<open>
  Rational numbers stand in for \<open>double\<close> where the model is run on concrete inputs.
\<close>

definition pad_zeros :: "nat \<Rightarrow> string \<Rightarrow> string" where
  "pad_zeros p ds = replicate (p - length ds) CHR ''0'' @ ds"

definition print_fixed :: "nat \<Rightarrow> rat \<Rightarrow> string" where
  "print_fixed p x =
     (let scaled = \<lfloor>\<bar>x\<bar> * 10 ^ p + 1 / 2\<rfloor>;
          whole = scaled div 10 ^ p;
          frac = scaled mod 10 ^ p
      in (if x < 0 then ''-'' else []) @ decimal_digits whole
         @ (if p = 0 then [] else ''.'' @ pad_zeros p (decimal_digits frac)))"

definition exact_dbl :: "rat dbl" where
  "exact_dbl = \<lparr> d_of_int = of_int, d_le = (\<le>), d_lt = (<), d_add = (+), d_div = (/),
     d_print = print_fixed \<rparr>"

definition dev_header :: string where
  "dev_header = ''Inter-|   Receive\<newline> face |bytes    packets\<newline>''"

definition dev_missing :: string where
  "dev_missing = dev_header @ ''    lo: 1 2 3 4 5 6 7 8 9 10 11 12 13 14 15 16\<newline>''"

definition dev_ok :: "string \<Rightarrow> string" where
  "dev_ok rx = dev_header @ ''  eth0: '' @ rx @ '' 2 3 4 5 6 7 8 9 10 11 12 13 14 15 16\<newline>''"

definition dev_malformed :: string where
  "dev_malformed = dev_missing @ ''  eth0: garbage\<newline>''"

definition dev_malformed_then_ok :: string where
  "dev_malformed_then_ok =
     dev_malformed @ ''  eth0: 1000 2 3 4 5 6 7 8 9 10 11 12 13 14 15 16\<newline>''"

definition tick_at :: "string option \<Rightarrow> int \<Rightarrow> tick" where
  "tick_at proc sec = \<lparr> proc_net_dev = proc,
     mono_clock = Some \<lparr> tv_sec = sec, tv_nsec = 0 \<rparr>, wall_clock = [],
     sig_sampling = False, sig_before_sleep = False, sig_sleep = False \<rparr>"

definition eth0_cfg :: "int \<Rightarrow> config" where
  "eth0_cfg n = \<lparr> cfg_interface = ''eth0'', cfg_interval = 2, max_iterations = n \<rparr>"

definition run4 :: "tick list" where
  "run4 = [tick_at (Some dev_missing) 10, tick_at (Some (dev_ok ''1000'')) 12,
           tick_at (Some (dev_ok ''3048'')) 14, tick_at (Some (dev_ok ''4000'')) 16]"

definition tick_interrupted :: tick where
  "tick_interrupted = (tick_at (Some (dev_ok ''1000'')) 10) \<lparr> sig_sleep := True \<rparr>"

section \<open>Properties\<close>

subsection \<open>The delta rule\<close>

lemma safe_delta_no_wrap:
  "previous \<le> current \<Longrightarrow>
     uint (safe_delta current previous) = uint current - uint previous"
  by (simp add: safe_delta_def uint_sub_if' word_le_def)

lemma safe_delta_wrap_mod:
  "current < previous \<Longrightarrow>
     uint (safe_delta current previous)
       = (2 ^ 32 - uint previous + uint current) mod 2 ^ 64"
  by (simp add: safe_delta_def not_le uint_word_ariths mod_simps)

lemma safe_delta_wrap_near:
  assumes "current < previous" and "uint previous - uint current \<le> 2 ^ 32"
  shows "uint (safe_delta current previous) = 2 ^ 32 - uint previous + uint current"
  using safe_delta_wrap_mod [OF assms(1)] assms
    uint_lt2p [of current] uint_lt2p [of previous] uint_ge_0 [of current]
  by (simp add: word_less_def)

lemma safe_delta_wrap_far:
  assumes "current < previous" and "2 ^ 32 < uint previous - uint current"
  shows "uint (safe_delta current previous)
           = 2 ^ 64 + 2 ^ 32 - uint previous + uint current"
proof -
  define x where "x = 4294967296 - uint previous + uint current"
  have c0: "0 \<le> uint current"
    by simp
  have p64: "uint previous < 18446744073709551616"
    using uint_lt2p [of previous] by simp
  have far: "4294967296 < uint previous - uint current"
    using assms(2) by simp
  have m: "uint (safe_delta current previous) = x mod 18446744073709551616"
    using safe_delta_wrap_mod [OF assms(1)] by (simp add: x_def)
  have lo: "0 \<le> x + 18446744073709551616"
    unfolding x_def using c0 p64 by linarith
  have hi: "x + 18446744073709551616 < 18446744073709551616"
    unfolding x_def using far by linarith
  have "x mod 18446744073709551616 = (x + 18446744073709551616) mod 18446744073709551616"
    by (simp only: mod_add_self2)
  also have "\<dots> = x + 18446744073709551616"
    using lo hi by (rule mod_pos_pos_trivial)
  finally show ?thesis
    using m by (simp add: x_def)
qed

text \<open>
  Claim C3. For every pair of unsigned 64-bit counters, \<open>safe_delta\<close> returns
  \<open>current - previous\<close> when \<open>current \<ge> previous\<close> (the exact difference, nothing
  wraps) and \<open>(2^32 - previous) + current\<close>, computed in \<open>uint64_t\<close>, otherwise; for a
  previous value of at most \<open>2^32\<close> the latter is the exact integer value of the formula.
  In particular \<open>previous = 4294967290\<close>, \<open>current = 10\<close> gives 16.
\<close>

theorem safe_delta_rule:
  "(previous \<le> current \<longrightarrow>
      safe_delta current previous = current - previous
      \<and> uint (safe_delta current previous) = uint current - uint previous)
   \<and> (current < previous \<longrightarrow>
      safe_delta current previous = (2 ^ 32 - previous) + current
      \<and> (uint previous \<le> 2 ^ 32 \<longrightarrow>
           uint (safe_delta current previous) = 2 ^ 32 - uint previous + uint current))
   \<and> safe_delta 10 4294967290 = 16"
proof (intro conjI impI)
  assume "previous \<le> current"
  then show "safe_delta current previous = current - previous"
    by (simp add: safe_delta_def)
next
  assume "previous \<le> current"
  then show "uint (safe_delta current previous) = uint current - uint previous"
    by (rule safe_delta_no_wrap)
next
  assume "current < previous"
  then show "safe_delta current previous = (2 ^ 32 - previous) + current"
    by (simp add: safe_delta_def not_le)
next
  assume lt: "current < previous" and small: "uint previous \<le> 2 ^ 32"
  have c0: "0 \<le> uint current"
    by simp
  have "uint previous \<le> 4294967296"
    using small by simp
  then have "uint previous - uint current \<le> 4294967296"
    using c0 by linarith
  then have "uint previous - uint current \<le> 2 ^ 32"
    by simp
  with lt show "uint (safe_delta current previous) = 2 ^ 32 - uint previous + uint current"
    by (rule safe_delta_wrap_near)
next
  show "safe_delta 10 4294967290 = 16"
    by (simp add: safe_delta_def)
qed

theorem safe_delta_rule_witness:
  "(3 :: u64) \<le> 5 \<and> uint (safe_delta 5 3) = 2
   \<and> (10 :: u64) < 4294967290 \<and> uint (4294967290 :: u64) \<le> 2 ^ 32
   \<and> uint (safe_delta 10 4294967290) = 16"
proof -
  have h1: "(3 :: u64) \<le> 5" by simp
  have h2: "(10 :: u64) < 4294967290" by simp
  have h3: "uint (4294967290 :: u64) \<le> 2 ^ 32" by simp
  from safe_delta_rule [where previous = 3 and current = 5] h1
  have "uint (safe_delta 5 3) = uint (5 :: u64) - uint (3 :: u64)" by blast
  moreover from safe_delta_rule [where previous = 4294967290 and current = 10] h2 h3
  have "uint (safe_delta 10 4294967290)
          = 2 ^ 32 - uint (4294967290 :: u64) + uint (10 :: u64)" by blast
  ultimately show ?thesis using h1 h2 h3 by simp
qed

text \<open>
  Claim C10, as amended. \<open>safe_delta\<close> is a total function. In the wrap branch
  (\<open>current < previous\<close>) the returned delta is always
  \<open>(current - previous + 2^32) mod 2^64\<close>. When \<open>previous - current \<le> 2^32\<close> (so in
  particular whenever \<open>previous \<le> 2^32\<close>) this is the exact integer
  \<open>(2^32 - previous) + current\<close>, a value below \<open>2^32\<close>; when
  \<open>previous - current > 2^32\<close> the integer formula is negative and the result is that
  integer plus \<open>2^64\<close>, a value above \<open>2^32\<close>.
\<close>

theorem safe_delta_wrap_modular:
  "current < previous \<Longrightarrow>
     uint (safe_delta current previous)
       = (uint current - uint previous + 2 ^ 32) mod 2 ^ 64
     \<and> (uint previous - uint current \<le> 2 ^ 32 \<longrightarrow>
          uint (safe_delta current previous) = 2 ^ 32 - uint previous + uint current
          \<and> uint (safe_delta current previous) < 2 ^ 32)
     \<and> (2 ^ 32 < uint previous - uint current \<longrightarrow>
          uint (safe_delta current previous)
            = 2 ^ 64 + (2 ^ 32 - uint previous + uint current)
          \<and> 2 ^ 32 < uint (safe_delta current previous))"
proof (intro conjI impI)
  assume lt: "current < previous"
  have "uint current - uint previous + 2 ^ 32 = 2 ^ 32 - uint previous + uint current"
    by simp
  then show "uint (safe_delta current previous)
               = (uint current - uint previous + 2 ^ 32) mod 2 ^ 64"
    using safe_delta_wrap_mod [OF lt] by (simp only:)
next
  assume lt: "current < previous" and near: "uint previous - uint current \<le> 2 ^ 32"
  show "uint (safe_delta current previous) = 2 ^ 32 - uint previous + uint current"
    using lt near by (rule safe_delta_wrap_near)
next
  assume lt: "current < previous" and near: "uint previous - uint current \<le> 2 ^ 32"
  have "uint current < uint previous"
    using lt by (simp add: word_less_def)
  then show "uint (safe_delta current previous) < 2 ^ 32"
    using safe_delta_wrap_near [OF lt near] by simp
next
  assume lt: "current < previous" and far: "2 ^ 32 < uint previous - uint current"
  show "uint (safe_delta current previous)
          = 2 ^ 64 + (2 ^ 32 - uint previous + uint current)"
    using safe_delta_wrap_far [OF lt far] by simp
next
  assume lt: "current < previous" and far: "2 ^ 32 < uint previous - uint current"
  have c0: "0 \<le> uint current"
    by simp
  have p64: "uint previous < 18446744073709551616"
    using uint_lt2p [of previous] by simp
  have "uint (safe_delta current previous)
          = 18446744073709551616 + 4294967296 - uint previous + uint current"
    using safe_delta_wrap_far [OF lt far] by simp
  then have "4294967296 < uint (safe_delta current previous)"
    using c0 p64 by linarith
  then show "2 ^ 32 < uint (safe_delta current previous)"
    by simp
qed

theorem safe_delta_wrap_modular_witness:
  "(0x100000000 :: u64) < 0x100000005
   \<and> uint (safe_delta 0x100000000 0x100000005) = 4294967291
   \<and> (0 :: u64) < 0xFFFFFFFFFFFFFFFF
   \<and> uint (safe_delta 0 0xFFFFFFFFFFFFFFFF) = 4294967297"
proof -
  have h1: "(0x100000000 :: u64) < 0x100000005" by simp
  have n1: "uint (0x100000005 :: u64) - uint (0x100000000 :: u64) \<le> 2 ^ 32" by simp
  have h2: "(0 :: u64) < 0xFFFFFFFFFFFFFFFF" by simp
  have f2: "2 ^ 32 < uint (0xFFFFFFFFFFFFFFFF :: u64) - uint (0 :: u64)" by simp
  from safe_delta_wrap_modular [OF h1] n1
  have "uint (safe_delta 0x100000000 0x100000005)
          = 2 ^ 32 - uint (0x100000005 :: u64) + uint (0x100000000 :: u64)" by blast
  moreover from safe_delta_wrap_modular [OF h2] f2
  have "uint (safe_delta 0 0xFFFFFFFFFFFFFFFF)
          = 2 ^ 64 + (2 ^ 32 - uint (0xFFFFFFFFFFFFFFFF :: u64) + uint (0 :: u64))" by blast
  ultimately show ?thesis using h1 h2 by simp
qed

text \<open>
  The claim as first stated fails inside its own range: with \<open>previous = 2^32 + 5\<close> and
  \<open>current = 2^32\<close> the returned delta is 4294967291, below \<open>2^32\<close> and equal to the
  exact integer value of the wrap formula; with \<open>previous = 2^32\<close> and \<open>current = 0\<close>
  the subtraction \<open>2^32 - previous\<close> does not underflow at all and the delta is 0.
\<close>

theorem safe_delta_not_enormous:
  "(0x100000000 :: u64) < 0x100000005 \<and> (2 ^ 32 :: u64) \<le> 0x100000005
   \<and> safe_delta 0x100000000 0x100000005 = 4294967291
   \<and> uint (safe_delta 0x100000000 0x100000005)
        = 2 ^ 32 - uint (0x100000005 :: u64) + uint (0x100000000 :: u64)
   \<and> (0 :: u64) < 0x100000000 \<and> (2 ^ 32 :: u64) \<le> 0x100000000
   \<and> uint (0x100000000 - 0x100000000 :: u64) = 2 ^ 32 - 2 ^ 32
   \<and> safe_delta 0 0x100000000 = 0"
  by (simp add: safe_delta_def)

subsection \<open>The rate rule\<close>

text \<open>
  Claim C4. For every delta and every elapsed time, \<open>calculate_rate\<close> returns \<open>0.0\<close>
  when \<open>elapsed <= 0.0\<close> holds and the quotient of the converted delta by the elapsed
  time otherwise, so in particular whenever the elapsed time is positive. This holds for
  every interpretation of the arithmetic of \<open>double\<close>.
\<close>

theorem calculate_rate_rule:
  "(d_le F elapsed (d_of_int F 0) \<longrightarrow> calculate_rate F delta elapsed = d_of_int F 0)
   \<and> (\<not> d_le F elapsed (d_of_int F 0) \<longrightarrow>
        calculate_rate F delta elapsed = d_div F (d_of_int F (uint delta)) elapsed)"
  by (simp add: calculate_rate_def)

theorem calculate_rate_rule_witness:
  "d_le exact_dbl 0 (d_of_int exact_dbl 0) \<and> calculate_rate exact_dbl 2048 0 = 0
   \<and> d_le exact_dbl (- 1) (d_of_int exact_dbl 0) \<and> calculate_rate exact_dbl 2048 (- 1) = 0
   \<and> \<not> d_le exact_dbl 2 (d_of_int exact_dbl 0) \<and> calculate_rate exact_dbl 2048 2 = 1024"
proof -
  have h0: "d_le exact_dbl 0 (d_of_int exact_dbl 0)"
    and h1: "d_le exact_dbl (- 1) (d_of_int exact_dbl 0)"
    and h2: "\<not> d_le exact_dbl 2 (d_of_int exact_dbl 0)"
    by (simp_all add: exact_dbl_def)
  from calculate_rate_rule [of exact_dbl 0 2048] h0
  have r0: "calculate_rate exact_dbl 2048 0 = 0"
    by (simp add: exact_dbl_def)
  from calculate_rate_rule [of exact_dbl "- 1" 2048] h1
  have r1: "calculate_rate exact_dbl 2048 (- 1) = 0"
    by (simp add: exact_dbl_def)
  from calculate_rate_rule [of exact_dbl 2 2048] h2
  have r2: "calculate_rate exact_dbl 2048 2 = 1024"
    by (simp add: exact_dbl_def)
  from h0 r0 h1 r1 h2 r2 show ?thesis by (intro conjI)
qed

subsection \<open>Tokens and decimal numbers\<close>

lemma tokens_None: "strtok_r s = None \<Longrightarrow> tokens s = []"
  by (subst tokens.simps) simp

lemma tokens_Some: "strtok_r s = Some (t, r) \<Longrightarrow> tokens s = t # tokens r"
  by (subst tokens.simps) simp

lemma token_loop_tokens:
  "length vals \<le> 16 \<Longrightarrow>
   token_loop (strtok_r s) vals =
     (if \<forall>t \<in> set (take (16 - length vals) (tokens s)). token_ok t
      then Some (vals @ map token_value (take (16 - length vals) (tokens s)))
      else None)"
proof (induction s arbitrary: vals rule: tokens.induct)
  case (1 s)
  show ?case
  proof (cases "strtok_r s")
    case None
    then show ?thesis by (simp add: tokens_None)
  next
    case (Some p)
    obtain t r where p: "p = (t, r)" by (cases p)
    with Some have tr: "strtok_r s = Some (t, r)" by simp
    show ?thesis
    proof (cases "length vals < 16")
      case False
      with "1.prems" have "length vals = 16" by simp
      then show ?thesis by (simp add: tr)
    next
      case True
      then have tk: "take (16 - length vals) (tokens s)
                       = t # take (16 - Suc (length vals)) (tokens r)"
        by (simp add: tokens_Some [OF tr] take_Cons')
      obtain v e err where st: "strtoull t = (v, e, err)"
        by (cases "strtoull t") auto
      show ?thesis
      proof (cases "err \<or> e \<noteq> []")
        case bad: True
        then have "\<not> token_ok t" by (auto simp: token_ok_def st)
        then show ?thesis using True bad by (simp add: tr tk st)
      next
        case good: False
        then have ok: "token_ok t" by (simp add: token_ok_def st)
        have v: "token_value t = v" by (simp add: token_value_def st)
        have "length (vals @ [v]) \<le> 16" using True by simp
        from "1.IH" [OF Some p [symmetric] this] show ?thesis
          using True good ok v by (simp add: tr tk st)
      qed
    qed
  qed
qed

lemma isdigit_cases:
  "isdigit c \<longleftrightarrow> c = CHR ''0'' \<or> c = CHR ''1'' \<or> c = CHR ''2'' \<or> c = CHR ''3'' \<or> c = CHR ''4''
     \<or> c = CHR ''5'' \<or> c = CHR ''6'' \<or> c = CHR ''7'' \<or> c = CHR ''8'' \<or> c = CHR ''9''"
  by (auto simp: isdigit_def)

lemma digit_val_range: "isdigit c \<Longrightarrow> 0 \<le> digit_val c \<and> digit_val c \<le> 9"
  by (auto simp: isdigit_cases digit_val_def)

lemma digit_char_val: "isdigit c \<Longrightarrow> digit_char (digit_val c) = c"
  by (auto simp: isdigit_cases digit_val_def digit_char_def)

lemma digit_val_zero: "isdigit c \<Longrightarrow> digit_val c = 0 \<longleftrightarrow> c = CHR ''0''"
  by (auto simp: isdigit_cases digit_val_def)

lemma int_digit_cases:
  "0 \<le> d \<Longrightarrow> d < 10 \<Longrightarrow> (d::int) = 0 \<or> d = 1 \<or> d = 2 \<or> d = 3 \<or> d = 4 \<or> d = 5 \<or> d = 6 \<or> d = 7 \<or> d = 8 \<or> d = 9"
  by presburger

lemma digit_char_digit:
  assumes "0 \<le> d" and "d < 10"
  shows "isdigit (digit_char d) \<and> digit_val (digit_char d) = d"
  using int_digit_cases [OF assms]
  by (auto simp: isdigit_def digit_val_def digit_char_def)

lemma isdigit_not_space: "isdigit c \<Longrightarrow> \<not> isspace c \<and> c \<noteq> CHR ''-'' \<and> c \<noteq> CHR ''+''"
  by (auto simp: isdigit_cases isspace_def)

lemma dec_val_snoc: "dec_val (t @ [c]) = 10 * dec_val t + digit_val c"
  by (simp add: dec_val_def)

lemma dec_val_nonneg: "\<forall>c \<in> set t. isdigit c \<Longrightarrow> 0 \<le> dec_val t"
proof (induction t rule: rev_induct)
  case Nil
  show ?case by (simp add: dec_val_def)
next
  case (snoc c t)
  then have "0 \<le> dec_val t" and "0 \<le> digit_val c"
    using digit_val_range [of c] by simp_all
  then show ?case by (simp add: dec_val_snoc)
qed

lemma strtoull_unsigned:
  assumes "unsigned_token t"
  shows "strtoull t = (word_of_int (dec_val t), [], False)"
proof -
  from assms obtain c cs where t: "t = c # cs" and c: "isdigit c"
    by (cases t) (auto simp: unsigned_token_def list_all_iff)
  from assms have all: "\<forall>x \<in> set t. isdigit x"
    and small: "dec_val t \<le> 18446744073709551615"
    by (simp_all add: unsigned_token_def list_all_iff)
  have sp: "dropWhile isspace t = t"
    using isdigit_not_space [OF c] by (simp add: t)
  have sign: "hd t \<noteq> CHR ''-''" "hd t \<noteq> CHR ''+''"
    using isdigit_not_space [OF c] by (simp_all add: t)
  have tw: "takeWhile isdigit t = t"
    using all by (simp add: takeWhile_eq_all_conv)
  have dw: "dropWhile isdigit t = []"
    using all by simp
  have ne: "t \<noteq> []" by (simp add: t)
  show ?thesis
    unfolding strtoull_def Let_def sp
    using sign small ne by (simp add: tw dw)
qed

lemma unsigned_token_ok: "unsigned_token t \<Longrightarrow> token_ok t"
  by (simp add: token_ok_def strtoull_unsigned)

lemma unsigned_token_value:
  assumes "unsigned_token t"
  shows "uint (token_value t) = dec_val t"
proof -
  have "0 \<le> dec_val t"
    using assms by (intro dec_val_nonneg) (simp add: unsigned_token_def list_all_iff)
  moreover have "dec_val t < 2 ^ 64"
    using assms by (simp add: unsigned_token_def)
  ultimately have "uint (word_of_int (dec_val t) :: u64) = dec_val t"
    by (simp add: uint_word_of_int)
  then show ?thesis
    by (simp add: token_value_def strtoull_unsigned [OF assms])
qed

lemma decimal_digits_val:
  "0 \<le> n \<Longrightarrow> (\<forall>c \<in> set (decimal_digits n). isdigit c) \<and> dec_val (decimal_digits n) = n"
proof (induction n rule: decimal_digits.induct)
  case (1 n)
  show ?case
  proof (cases "n < 10")
    case True
    with "1.prems" digit_char_digit [of n] show ?thesis
      by (subst (1 2) decimal_digits.simps) (simp add: dec_val_def)
  next
    case False
    then have "0 \<le> n div 10" using "1.prems" by simp
    from "1.IH" [OF False this] digit_char_digit [of "n mod 10"]
    show ?thesis
      using False by (subst (1 2) decimal_digits.simps) (simp add: dec_val_snoc)
  qed
qed

lemma dec_val_pos:
  "t \<noteq> [] \<Longrightarrow> \<forall>c \<in> set t. isdigit c \<Longrightarrow> hd t \<noteq> CHR ''0'' \<Longrightarrow> 1 \<le> dec_val t"
proof (induction t rule: rev_induct)
  case Nil
  then show ?case by simp
next
  case (snoc c t)
  have c: "isdigit c" using snoc.prems by simp
  show ?case
  proof (cases "t = []")
    case True
    with snoc.prems have "c \<noteq> CHR ''0''" by simp
    then have "digit_val c \<noteq> 0" using digit_val_zero [OF c] by simp
    then show ?thesis
      using digit_val_range [OF c] True by (simp add: dec_val_def)
  next
    case False
    with snoc have "1 \<le> dec_val t" by simp
    then show ?thesis
      using digit_val_range [OF c] by (simp add: dec_val_snoc)
  qed
qed

lemma decimal_digits_canonical:
  "t \<noteq> [] \<Longrightarrow> \<forall>c \<in> set t. isdigit c \<Longrightarrow> canonical_token t \<Longrightarrow>
     decimal_digits (dec_val t) = t"
proof (induction t rule: rev_induct)
  case Nil
  then show ?case by simp
next
  case (snoc c t)
  have c: "isdigit c" using snoc.prems by simp
  note r = digit_val_range [OF c]
  show ?case
  proof (cases "t = []")
    case True
    then show ?thesis
      using r digit_char_val [OF c]
      by (subst decimal_digits.simps) (simp add: dec_val_def)
  next
    case False
    with snoc.prems have hd: "hd t \<noteq> CHR ''0''"
      by (auto simp: canonical_token_def)
    have digs: "\<forall>c \<in> set t. isdigit c" using snoc.prems by simp
    have can: "canonical_token t" using False hd by (simp add: canonical_token_def)
    have pos: "1 \<le> dec_val t" using False digs hd by (rule dec_val_pos)
    have IH: "decimal_digits (dec_val t) = t" using False digs can by (rule snoc.IH)
    have d: "(10 * dec_val t + digit_val c) div 10 = dec_val t"
      and m: "(10 * dec_val t + digit_val c) mod 10 = digit_val c"
      using r by simp_all
    have m': "digit_val c mod 10 = digit_val c"
      using r by simp
    have "\<not> 10 * dec_val t + digit_val c < 10" using pos r by simp
    then show ?thesis
      by (subst decimal_digits.simps) (simp add: dec_val_snoc d m m' IH digit_char_val [OF c])
  qed
qed

text \<open>
  \<open>strtoull\<close> accepts more than unsigned decimal numbers, a sign for instance, and
  rejects numbers of \<open>2^64\<close> and more.
\<close>

lemma token_ok_examples:
  "token_ok ''-5'' \<and> token_value ''-5'' = 18446744073709551611
   \<and> token_ok ''+5'' \<and> token_ok ''18446744073709551615''
   \<and> \<not> token_ok ''18446744073709551616'' \<and> \<not> token_ok ''12a'' \<and> \<not> token_ok ''-''"
  by code_simp

subsection \<open>The line parser\<close>

lemma parse_interface_line_fail:
  "\<not> fst (parse_interface_line line iface stats) \<Longrightarrow>
     parse_interface_line line iface stats = (False, stats)"
  by (auto simp: parse_interface_line_def split: option.splits prod.splits if_splits)

lemma parse_interface_line_mismatch:
  "row_label line \<noteq> Some iface \<Longrightarrow> parse_interface_line line iface stats = (False, stats)"
  by (auto simp: parse_interface_line_def row_label_def split: option.splits prod.splits)

lemma parse_interface_line_ok_iff:
  assumes "row_label line = Some iface"
  shows "fst (parse_interface_line line iface stats) \<longleftrightarrow>
           16 \<le> length (tokens (row_body line))
           \<and> (\<forall>t \<in> set (take 16 (tokens (row_body line))). token_ok t)"
proof -
  from assms obtain label body where
    sc: "strchr (take (MAX_LINE_LEN - 1) line) CHR '':'' = Some (label, body)"
    and lab: "trim_label label = iface"
    by (auto simp: row_label_def split: option.splits prod.splits)
  have body: "row_body line = body" unfolding row_body_def sc by simp
  have loop: "token_loop (strtok_r body) [] =
     (if \<forall>t \<in> set (take 16 (tokens body)). token_ok t
      then Some (map token_value (take 16 (tokens body))) else None)"
    using token_loop_tokens [of "[]" body] by simp
  show ?thesis
    unfolding parse_interface_line_def sc body by (auto simp: lab loop)
qed

lemma parse_interface_line_ok_fields:
  assumes "row_label line = Some iface"
    and "fst (parse_interface_line line iface stats)"
  shows "snd (parse_interface_line line iface stats) = stats
           \<lparr> interface := take (MAX_IFACE_LEN - 1) iface,
             rx_bytes := token_value (tokens (row_body line) ! 0),
             rx_packets := token_value (tokens (row_body line) ! 1),
             rx_errors := token_value (tokens (row_body line) ! 2),
             rx_drops := token_value (tokens (row_body line) ! 3),
             tx_bytes := token_value (tokens (row_body line) ! 8),
             tx_packets := token_value (tokens (row_body line) ! 9),
             tx_errors := token_value (tokens (row_body line) ! 10),
             tx_drops := token_value (tokens (row_body line) ! 11),
             valid := True \<rparr>"
proof -
  from assms(1) obtain label body where
    sc: "strchr (take (MAX_LINE_LEN - 1) line) CHR '':'' = Some (label, body)"
    and lab: "trim_label label = iface"
    by (auto simp: row_label_def split: option.splits prod.splits)
  have body: "row_body line = body" unfolding row_body_def sc by simp
  have loop: "token_loop (strtok_r body) [] =
     (if \<forall>t \<in> set (take 16 (tokens body)). token_ok t
      then Some (map token_value (take 16 (tokens body))) else None)"
    using token_loop_tokens [of "[]" body] by simp
  from parse_interface_line_ok_iff [OF assms(1), of stats] assms(2)
  have len: "16 \<le> length (tokens body)"
    and ok: "\<forall>t \<in> set (take 16 (tokens body)). token_ok t"
    by (simp_all add: body)
  have nth: "\<And>i. i < 16 \<Longrightarrow>
      map token_value (take 16 (tokens body)) ! i = token_value (tokens body ! i)"
    using len by simp
  show ?thesis
    unfolding parse_interface_line_def sc body
    using len ok by (simp add: lab loop nth)
qed

lemma parse_ok_stats_indep:
  "fst (parse_interface_line line iface stats) = fst (parse_interface_line line iface stats')"
  by (simp add: parse_interface_line_def split: option.splits prod.splits)

text \<open>
  Claim C1, as amended. For a row whose label matches the requested interface, parsing
  succeeds if and only if the body (within the 1023 bytes the parser copies) has at
  least 16 tokens and \<open>strtoull\<close> consumes each of the first 16 entirely without a
  range error. A body with fewer than 16 tokens, so one with 15, fails; a body whose
  first 16 tokens are unsigned decimal numbers below \<open>2^64\<close> succeeds, whether it has
  16 tokens or more: tokens after the sixteenth are never read.
\<close>

theorem parse_interface_line_token_count:
  assumes "row_label line = Some iface"
  shows "(fst (parse_interface_line line iface stats) \<longleftrightarrow>
            16 \<le> length (tokens (row_body line))
            \<and> (\<forall>t \<in> set (take 16 (tokens (row_body line))). token_ok t))
       \<and> (length (tokens (row_body line)) < 16 \<longrightarrow>
            \<not> fst (parse_interface_line line iface stats))
       \<and> (16 \<le> length (tokens (row_body line))
            \<and> (\<forall>t \<in> set (take 16 (tokens (row_body line))). unsigned_token t) \<longrightarrow>
            fst (parse_interface_line line iface stats))"
  using parse_interface_line_ok_iff [OF assms, of stats]
  by (auto simp: unsigned_token_ok)

theorem parse_interface_line_token_count_witness:
  "row_label ''  eth0: 1000 20 0 0 0 0 0 0 3000 40 0 0 0 0 0 0'' = Some ''eth0''
   \<and> length (tokens (row_body ''  eth0: 1000 20 0 0 0 0 0 0 3000 40 0 0 0 0 0 0'')) = 16
   \<and> fst (parse_interface_line ''  eth0: 1000 20 0 0 0 0 0 0 3000 40 0 0 0 0 0 0''
        ''eth0'' zero_stats)
   \<and> row_label ''  eth0: 1000 20 0 0 0 0 0 0 3000 40 0 0 0 0 0'' = Some ''eth0''
   \<and> length (tokens (row_body ''  eth0: 1000 20 0 0 0 0 0 0 3000 40 0 0 0 0 0'')) = 15
   \<and> \<not> fst (parse_interface_line ''  eth0: 1000 20 0 0 0 0 0 0 3000 40 0 0 0 0 0''
        ''eth0'' zero_stats)"
proof -
  let ?r16 = "''  eth0: 1000 20 0 0 0 0 0 0 3000 40 0 0 0 0 0 0''"
  let ?r15 = "''  eth0: 1000 20 0 0 0 0 0 0 3000 40 0 0 0 0 0''"
  have l16: "row_label ?r16 = Some ''eth0''" by code_simp
  have n16: "length (tokens (row_body ?r16)) = 16" by code_simp
  have u16: "list_all unsigned_token (take 16 (tokens (row_body ?r16)))" by code_simp
  have l15: "row_label ?r15 = Some ''eth0''" by code_simp
  have n15: "length (tokens (row_body ?r15)) = 15" by code_simp
  have a16: "16 \<le> length (tokens (row_body ?r16))"
    using n16 by simp
  have b16: "\<forall>t \<in> set (take 16 (tokens (row_body ?r16))). unsigned_token t"
    using u16 by (simp add: list_all_iff)
  have a15: "length (tokens (row_body ?r15)) < 16"
    using n15 by simp
  from parse_interface_line_token_count [OF l16, of zero_stats] a16 b16
  have ok: "fst (parse_interface_line ?r16 ''eth0'' zero_stats)"
    by blast
  from parse_interface_line_token_count [OF l15, of zero_stats] a15
  have bad: "\<not> fst (parse_interface_line ?r15 ''eth0'' zero_stats)"
    by blast
  from l16 n16 ok l15 n15 bad show ?thesis by (intro conjI)
qed

text \<open>
  The claim as first stated fails on a row with 17 numeric tokens: the parser accepts it.
\<close>

theorem parse_interface_line_accepts_17_tokens:
  "row_label ''  eth0: 1000 20 0 0 0 0 0 0 3000 40 0 0 0 0 0 0 17'' = Some ''eth0''
   \<and> tokens (row_body ''  eth0: 1000 20 0 0 0 0 0 0 3000 40 0 0 0 0 0 0 17'')
       = [''1000'', ''20'', ''0'', ''0'', ''0'', ''0'', ''0'', ''0'',
          ''3000'', ''40'', ''0'', ''0'', ''0'', ''0'', ''0'', ''0'', ''17'']
   \<and> length (tokens (row_body ''  eth0: 1000 20 0 0 0 0 0 0 3000 40 0 0 0 0 0 0 17'')) = 17
   \<and> fst (parse_interface_line ''  eth0: 1000 20 0 0 0 0 0 0 3000 40 0 0 0 0 0 0 17''
        ''eth0'' zero_stats)"
  by code_simp

lemma row_split:
  assumes "CHR '':'' \<notin> set label"
    and "length (label @ CHR '':'' # body) < MAX_LINE_LEN"
  shows "row_label (label @ CHR '':'' # body) = Some (trim_label label)"
    and "row_body (label @ CHR '':'' # body) = body"
proof -
  let ?line = "label @ CHR '':'' # body"
  have cp: "take (MAX_LINE_LEN - 1) ?line = ?line"
    using assms(2) by simp
  have tw: "takeWhile (\<lambda>x. x \<noteq> CHR '':'') ?line = label"
    using assms(1) by (induction label) auto
  have dw: "dropWhile (\<lambda>x. x \<noteq> CHR '':'') ?line = CHR '':'' # body"
    using assms(1) by (induction label) auto
  have sc: "strchr ?line CHR '':'' = Some (label, body)"
    unfolding strchr_def tw dw by simp
  show "row_label ?line = Some (trim_label label)"
    unfolding row_label_def cp sc by simp
  show "row_body ?line = body"
    unfolding row_body_def cp sc by simp
qed

lemma roundtrip_rows:
  assumes "row_label line = Some iface"
    and "length (tokens (row_body line)) = 16"
    and "\<forall>t \<in> set (tokens (row_body line)). unsigned_token t"
  shows "fst (parse_interface_line line iface stats)
     \<and> map uint (counters (snd (parse_interface_line line iface stats)))
         = map (\<lambda>i. dec_val (tokens (row_body line) ! i)) [0, 1, 2, 3, 8, 9, 10, 11]
     \<and> map (\<lambda>w. dec_val (print_llu w)) (counters (snd (parse_interface_line line iface stats)))
         = map (\<lambda>i. dec_val (tokens (row_body line) ! i)) [0, 1, 2, 3, 8, 9, 10, 11]
     \<and> ((\<forall>t \<in> set (tokens (row_body line)). canonical_token t) \<longrightarrow>
          map print_llu (counters (snd (parse_interface_line line iface stats)))
            = map (\<lambda>i. tokens (row_body line) ! i) [0, 1, 2, 3, 8, 9, 10, 11])"
proof -
  define ts where "ts = tokens (row_body line)"
  have len: "length ts = 16" using assms(2) by (simp add: ts_def)
  have un: "\<And>i. i < 16 \<Longrightarrow> unsigned_token (ts ! i)"
    using assms(3) len by (simp add: ts_def)
  have ok: "fst (parse_interface_line line iface stats)"
    using parse_interface_line_ok_iff [OF assms(1), of stats] assms(2,3)
    by (auto simp: unsigned_token_ok dest: in_set_takeD)
  note fields = parse_interface_line_ok_fields [OF assms(1) ok, folded ts_def]
  have val: "\<And>i. i < 16 \<Longrightarrow> uint (token_value (ts ! i)) = dec_val (ts ! i)"
    using un by (simp add: unsigned_token_value)
  have pr: "\<And>i. i < 16 \<Longrightarrow> dec_val (print_llu (token_value (ts ! i))) = dec_val (ts ! i)"
  proof -
    fix i :: nat
    assume i: "i < 16"
    have "0 \<le> uint (token_value (ts ! i))"
      by simp
    from decimal_digits_val [OF this]
    show "dec_val (print_llu (token_value (ts ! i))) = dec_val (ts ! i)"
      by (simp add: print_llu_def val [OF i])
  qed
  have can: "\<And>i. i < 16 \<Longrightarrow> canonical_token (ts ! i) \<Longrightarrow>
      print_llu (token_value (ts ! i)) = ts ! i"
  proof -
    fix i :: nat
    assume i: "i < 16" and c: "canonical_token (ts ! i)"
    from un [OF i] have "ts ! i \<noteq> []" and "\<forall>c \<in> set (ts ! i). isdigit c"
      by (simp_all add: unsigned_token_def list_all_iff)
    from decimal_digits_canonical [OF this c] show "print_llu (token_value (ts ! i)) = ts ! i"
      by (simp add: print_llu_def val [OF i])
  qed
  have canall: "(\<forall>t \<in> set ts. canonical_token t) \<Longrightarrow> (\<And>i. i < 16 \<Longrightarrow> canonical_token (ts ! i))"
    using len by simp
  show ?thesis
    unfolding ts_def [symmetric]
    using ok [folded ts_def] canall
    by (simp add: fields counters_def val pr can)
qed

text \<open>
  Claim C9. Take a well-formed row: a label without colon that trims to the requested
  interface, a colon, and a body of exactly 16 tokens, each an unsigned decimal number
  below \<open>2^64\<close>, the whole within the 1023 bytes of a line. Parsing it succeeds, the
  eight counters of the snapshot are exactly the numbers of the tokens 0--3 and 8--11,
  printing them with \<open>%llu\<close> gives decimal numbers of the same values, and the same
  strings when the tokens have no leading zeros.
\<close>

theorem parse_interface_line_roundtrip:
  assumes "CHR '':'' \<notin> set label"
    and "length (label @ CHR '':'' # body) < MAX_LINE_LEN"
    and "trim_label label = iface"
    and "length (tokens body) = 16"
    and "\<forall>t \<in> set (tokens body). unsigned_token t"
  shows "fst (parse_interface_line (label @ CHR '':'' # body) iface stats)
     \<and> map uint (counters (snd (parse_interface_line (label @ CHR '':'' # body) iface stats)))
         = map (\<lambda>i. dec_val (tokens body ! i)) [0, 1, 2, 3, 8, 9, 10, 11]
     \<and> map (\<lambda>w. dec_val (print_llu w))
           (counters (snd (parse_interface_line (label @ CHR '':'' # body) iface stats)))
         = map (\<lambda>i. dec_val (tokens body ! i)) [0, 1, 2, 3, 8, 9, 10, 11]
     \<and> ((\<forall>t \<in> set (tokens body). canonical_token t) \<longrightarrow>
          map print_llu
            (counters (snd (parse_interface_line (label @ CHR '':'' # body) iface stats)))
            = map (\<lambda>i. tokens body ! i) [0, 1, 2, 3, 8, 9, 10, 11])"
proof -
  let ?line = "label @ CHR '':'' # body"
  have l: "row_label ?line = Some iface"
    using row_split(1) [OF assms(1,2)] assms(3) by simp
  have b: "row_body ?line = body"
    by (rule row_split(2) [OF assms(1,2)])
  have n: "length (tokens (row_body ?line)) = 16"
    using assms(4) by (simp only: b)
  have u: "\<forall>t \<in> set (tokens (row_body ?line)). unsigned_token t"
    using assms(5) by (simp only: b)
  note r = roundtrip_rows [OF l n u, of stats, unfolded b]
  show ?thesis
    by (rule r)
qed

theorem parse_interface_line_roundtrip_witness:
  "CHR '':'' \<notin> set ''  eth0''
   \<and> length (''  eth0'' @ CHR '':''
        # '' 18446744073709551615 20 3 4 5 6 7 8 4294967296 40 11 12 13 14 15 16\<newline>'')
       < MAX_LINE_LEN
   \<and> trim_label ''  eth0'' = ''eth0''
   \<and> tokens '' 18446744073709551615 20 3 4 5 6 7 8 4294967296 40 11 12 13 14 15 16\<newline>''
       = [''18446744073709551615'', ''20'', ''3'', ''4'', ''5'', ''6'', ''7'', ''8'',
          ''4294967296'', ''40'', ''11'', ''12'', ''13'', ''14'', ''15'', ''16'']
   \<and> map print_llu (counters (snd (parse_interface_line
        (''  eth0'' @ CHR '':''
           # '' 18446744073709551615 20 3 4 5 6 7 8 4294967296 40 11 12 13 14 15 16\<newline>'')
        ''eth0'' zero_stats)))
       = [''18446744073709551615'', ''20'', ''3'', ''4'', ''4294967296'', ''40'', ''11'', ''12'']"
proof -
  let ?b = "'' 18446744073709551615 20 3 4 5 6 7 8 4294967296 40 11 12 13 14 15 16\<newline>''"
  let ?ts = "[''18446744073709551615'', ''20'', ''3'', ''4'', ''5'', ''6'', ''7'', ''8'',
          ''4294967296'', ''40'', ''11'', ''12'', ''13'', ''14'', ''15'', ''16'']"
  have c: "CHR '':'' \<notin> set ''  eth0''" by simp
  have l: "length (''  eth0'' @ CHR '':'' # ?b) < MAX_LINE_LEN"
    by (simp add: MAX_LINE_LEN_def)
  have t: "trim_label ''  eth0'' = ''eth0''" by code_simp
  have ts: "tokens ?b = ?ts" by code_simp
  have n: "length (tokens ?b) = 16"
    by (simp only: ts) simp
  have u: "list_all unsigned_token ?ts" by code_simp
  have k: "list_all canonical_token ?ts" by code_simp
  have sel: "map (\<lambda>i. ?ts ! i) [0, 1, 2, 3, 8, 9, 10, 11]
      = [''18446744073709551615'', ''20'', ''3'', ''4'', ''4294967296'', ''40'', ''11'', ''12'']"
    by simp
  from u have u': "\<forall>t \<in> set (tokens ?b). unsigned_token t"
    by (simp only: ts list_all_iff)
  from k have k': "\<forall>t \<in> set (tokens ?b). canonical_token t"
    by (simp only: ts list_all_iff)
  from parse_interface_line_roundtrip [OF c l t n u', of zero_stats] k'
  have "map print_llu (counters (snd (parse_interface_line (''  eth0'' @ CHR '':'' # ?b)
          ''eth0'' zero_stats)))
        = map (\<lambda>i. tokens ?b ! i) [0, 1, 2, 3, 8, 9, 10, 11]"
    by blast
  then have "map print_llu (counters (snd (parse_interface_line (''  eth0'' @ CHR '':'' # ?b)
          ''eth0'' zero_stats)))
        = [''18446744073709551615'', ''20'', ''3'', ''4'', ''4294967296'', ''40'', ''11'', ''12'']"
    by (simp only: ts sel)
  with c l t ts show ?thesis by (intro conjI)
qed

subsection \<open>The counter source reader\<close>

lemma read_loop_fail: "\<not> fst (read_loop iface clock fp line_num stats) \<Longrightarrow>
    read_loop iface clock fp line_num stats = (False, stats)"
proof (induction iface clock fp line_num stats rule: read_loop.induct)
  case (1 iface clock fp line_num stats)
  show ?case
  proof (cases "fgets MAX_LINE_LEN fp")
    case None
    then show ?thesis by (subst read_loop.simps) simp
  next
    case (Some p)
    obtain line fp' where p: "p = (line, fp')" by (cases p)
    show ?thesis
    proof (cases "line_num + 1 \<le> 2")
      case True
      have eq: "read_loop iface clock fp line_num stats = read_loop iface clock fp' (line_num + 1) stats"
        using Some p True by (subst read_loop.simps) simp
      with "1.prems" "1.IH"(1) [OF Some p [symmetric] True] show ?thesis
        by simp
    next
      case False
      obtain ok stats' where ps: "parse_interface_line line iface stats = (ok, stats')"
        by (cases "parse_interface_line line iface stats")
      show ?thesis
      proof (cases ok)
        case True
        then have "fst (read_loop iface clock fp line_num stats)"
          using Some p False ps by (subst read_loop.simps) simp
        with "1.prems" show ?thesis by simp
      next
        case nok: False
        with ps parse_interface_line_fail [of line iface stats] have st: "stats' = stats"
          by simp
        have eq: "read_loop iface clock fp line_num stats
                    = read_loop iface clock fp' (line_num + 1) stats'"
          using Some p False ps nok by (subst read_loop.simps) simp
        with "1.prems" "1.IH"(2) [OF Some p [symmetric] False ps [symmetric] nok] st
        show ?thesis by simp
      qed
    qed
  qed
qed

lemma read_net_stats_fail:
  "\<not> fst (read_net_stats iface proc clock stats) \<Longrightarrow>
     read_net_stats iface proc clock stats = (False, stats)"
  by (cases proc) (simp_all add: read_net_stats_def read_loop_fail)

lemma read_loop_skip:
  assumes "fgets MAX_LINE_LEN fp = Some (line, fp')"
    and "2 \<le> line_num"
    and "\<not> fst (parse_interface_line line iface stats)"
  shows "read_loop iface clock fp line_num stats
           = read_loop iface clock fp' (line_num + 1) stats"
  using assms parse_interface_line_fail [OF assms(3)]
  by (subst read_loop.simps) simp

lemma read_loop_ok_indep:
  "fst (read_loop iface clock fp line_num stats) = fst (read_loop iface clock fp line_num stats')"
proof (induction iface clock fp line_num stats arbitrary: stats' rule: read_loop.induct)
  case (1 iface clock fp line_num stats)
  show ?case
  proof (cases "fgets MAX_LINE_LEN fp")
    case None
    then show ?thesis by (subst (1 2) read_loop.simps) simp
  next
    case (Some p)
    obtain line fp' where p: "p = (line, fp')" by (cases p)
    show ?thesis
    proof (cases "line_num + 1 \<le> 2")
      case True
      from "1.IH"(1) [OF Some p [symmetric] True, of stats'] show ?thesis
        using Some p True by (subst (1 2) read_loop.simps) simp
    next
      case False
      obtain ok st1 where ps: "parse_interface_line line iface stats = (ok, st1)"
        by (cases "parse_interface_line line iface stats")
      obtain ok' st2 where ps': "parse_interface_line line iface stats' = (ok', st2)"
        by (cases "parse_interface_line line iface stats'")
      have same: "ok' = ok"
        using parse_ok_stats_indep [of line iface stats stats'] ps ps' by simp
      show ?thesis
      proof (cases ok)
        case True
        then show ?thesis
          using Some p False ps ps' same by (subst (1 2) read_loop.simps) simp
      next
        case nok: False
        from "1.IH"(2) [OF Some p [symmetric] False ps [symmetric] nok, of st2]
        show ?thesis
          using Some p False ps ps' same nok by (subst (1 2) read_loop.simps) simp
      qed
    qed
  qed
qed

lemma read_net_stats_ok_indep:
  "fst (read_net_stats iface proc clock stats) = fst (read_net_stats iface proc clock stats')"
  by (cases proc) (simp_all add: read_net_stats_def read_loop_ok_indep [of _ _ _ _ stats stats'])

lemma read_ok_iff:
  "fst (read_net_stats (cfg_interface cfg) (proc_net_dev e) (mono_clock e) stats) = read_ok cfg e"
  unfolding read_ok_def by (rule read_net_stats_ok_indep)

text \<open>
  Claim C2, as amended. A row whose label does not match is skipped: the parser returns
  false and leaves the snapshot alone, whatever the body. A row whose label matches but
  whose body is malformed gets the very same result, and the reader goes on with the rows
  after it: the read attempt fails, like a missing interface, only if no later row
  parses.
\<close>

theorem read_loop_skips_unparsed_rows:
  assumes "fgets MAX_LINE_LEN fp = Some (line, fp')" and "2 \<le> line_num"
  shows "(row_label line \<noteq> Some iface \<longrightarrow>
            parse_interface_line line iface stats = (False, stats))
       \<and> (\<not> fst (parse_interface_line line iface stats) \<longrightarrow>
            parse_interface_line line iface stats = (False, stats)
            \<and> read_loop iface clock fp line_num stats
                = read_loop iface clock fp' (line_num + 1) stats)
       \<and> (row_label line = Some iface
            \<and> (length (tokens (row_body line)) < 16
                \<or> \<not> list_all token_ok (take 16 (tokens (row_body line)))) \<longrightarrow>
            read_loop iface clock fp line_num stats
              = read_loop iface clock fp' (line_num + 1) stats)"
proof (intro conjI impI)
  assume "row_label line \<noteq> Some iface"
  then show "parse_interface_line line iface stats = (False, stats)"
    by (rule parse_interface_line_mismatch)
next
  assume "\<not> fst (parse_interface_line line iface stats)"
  then show "parse_interface_line line iface stats = (False, stats)"
    by (rule parse_interface_line_fail)
next
  assume "\<not> fst (parse_interface_line line iface stats)"
  with assms show "read_loop iface clock fp line_num stats
      = read_loop iface clock fp' (line_num + 1) stats"
    by (rule read_loop_skip)
next
  assume a: "row_label line = Some iface
      \<and> (length (tokens (row_body line)) < 16
          \<or> \<not> list_all token_ok (take 16 (tokens (row_body line))))"
  then have "\<not> fst (parse_interface_line line iface stats)"
    using parse_interface_line_ok_iff [of line iface stats]
    by (auto simp: list_all_iff)
  with assms show "read_loop iface clock fp line_num stats
      = read_loop iface clock fp' (line_num + 1) stats"
    by (rule read_loop_skip)
qed

theorem read_loop_skips_unparsed_rows_witness:
  "fgets MAX_LINE_LEN
      ''  eth0: garbage\<newline>  eth0: 1000 2 3 4 5 6 7 8 9 10 11 12 13 14 15 16\<newline>''
     = Some (''  eth0: garbage\<newline>'',
             ''  eth0: 1000 2 3 4 5 6 7 8 9 10 11 12 13 14 15 16\<newline>'')
   \<and> row_label ''  eth0: garbage\<newline>'' = Some ''eth0''
   \<and> length (tokens (row_body ''  eth0: garbage\<newline>'')) < 16
   \<and> read_loop ''eth0'' None
        ''  eth0: garbage\<newline>  eth0: 1000 2 3 4 5 6 7 8 9 10 11 12 13 14 15 16\<newline>''
        2 zero_stats
       = read_loop ''eth0'' None
           ''  eth0: 1000 2 3 4 5 6 7 8 9 10 11 12 13 14 15 16\<newline>'' (2 + 1) zero_stats"
proof -
  let ?fp = "''  eth0: garbage\<newline>  eth0: 1000 2 3 4 5 6 7 8 9 10 11 12 13 14 15 16\<newline>''"
  let ?line = "''  eth0: garbage\<newline>''"
  let ?fp' = "''  eth0: 1000 2 3 4 5 6 7 8 9 10 11 12 13 14 15 16\<newline>''"
  have g: "fgets MAX_LINE_LEN ?fp = Some (?line, ?fp')" by code_simp
  have n: "(2::nat) \<le> 2" by simp
  have l: "row_label ?line = Some ''eth0''" by code_simp
  have k: "length (tokens (row_body ?line)) < 16" by code_simp
  from read_loop_skips_unparsed_rows [OF g n, of "''eth0''" zero_stats None] l k
  have "read_loop ''eth0'' None ?fp 2 zero_stats = read_loop ''eth0'' None ?fp' (2 + 1) zero_stats"
    by blast
  with g l k show ?thesis by (intro conjI)
qed

text \<open>
  The claim as first stated fails: a source whose \<open>eth0\<close> row is malformed reads exactly
  like a source without that row, and when a well-formed \<open>eth0\<close> row follows the
  malformed one the read succeeds with the counters of the later row.
\<close>

theorem read_net_stats_continues_after_malformed_row:
  "row_label ''  eth0: garbage\<newline>'' = Some ''eth0''
   \<and> \<not> fst (parse_interface_line ''  eth0: garbage\<newline>'' ''eth0'' zero_stats)
   \<and> read_net_stats ''eth0'' (Some dev_malformed) None zero_stats
       = read_net_stats ''eth0'' (Some dev_missing) None zero_stats
   \<and> fst (read_net_stats ''eth0'' (Some dev_malformed_then_ok) None zero_stats)
   \<and> rx_bytes (snd (read_net_stats ''eth0'' (Some dev_malformed_then_ok) None zero_stats))
       = 1000"
  by code_simp

subsection \<open>One pass of the poll loop\<close>

lemma poll_loop_stop: "\<not> loop_cond cfg s \<Longrightarrow> poll_loop F cfg ticks s = Some s"
  by (cases ticks) simp_all

lemma read_count_append [simp]: "read_count (xs @ ys) = read_count xs + read_count ys"
  by (simp add: read_count_def)

lemma row_count_append [simp]: "row_count (xs @ ys) = row_count xs + row_count ys"
  by (simp add: row_count_def)

lemma count_simps [simp]:
  "read_count [] = 0" "row_count [] = 0"
  "read_count (ev # evs) = (if ev = Ev_read then 1 else 0) + read_count evs"
  "row_count (Ev_row r # evs) = 1 + row_count evs"
  "row_count (Ev_read # evs) = row_count evs"
  "row_count (Ev_warning # evs) = row_count evs"
  "row_count (Ev_header # evs) = row_count evs"
  "row_count (Ev_sleep n b # evs) = row_count evs"
  by (simp_all add: read_count_def row_count_def)

lemma loop_body_fail:
  assumes "\<not> read_ok cfg e"
  shows "loop_body F cfg e s = s
    \<lparr> keep_running := keep_running s \<and> \<not> sig_sampling e \<and> \<not> sig_before_sleep e \<and> \<not> sig_sleep e,
      trace := trace s @ [Ev_read, Ev_warning, Ev_sleep (cfg_interval cfg) (sig_sleep e)] \<rparr>"
proof -
  have nf: "\<not> fst (read_net_stats (cfg_interface cfg) (proc_net_dev e) (mono_clock e)
                     (current_stats s))"
    using assms by (simp add: read_ok_iff)
  from read_net_stats_fail [OF nf] show ?thesis
    by (simp add: loop_body_def sleep_def)
qed

lemma loop_body_ok:
  assumes "read_ok cfg e"
  shows "\<exists>cur row hdr.
    read_net_stats (cfg_interface cfg) (proc_net_dev e) (mono_clock e) (current_stats s)
      = (True, cur)
    \<and> row = print_stats F (wall_clock e) cur
        (if valid (previous_stats s) then Some (previous_stats s) else None)
        (if valid (previous_stats s)
         then timespec_diff F (timestamp (previous_stats s)) (timestamp cur)
         else d_of_int F 0)
    \<and> hdr = (if HEADER_INTERVAL \<le> lines_since_header s + 1 then [Ev_header] else [])
    \<and> current_stats (loop_body F cfg e s) = cur
    \<and> previous_stats (loop_body F cfg e s) = cur
    \<and> iteration (loop_body F cfg e s) = iteration s + 1
    \<and> (if keep_running s \<and> \<not> sig_sampling e
          \<and> (max_iterations cfg < 0 \<or> iteration s + 1 < max_iterations cfg)
        then keep_running (loop_body F cfg e s)
               = (\<not> sig_before_sleep e \<and> \<not> sig_sleep e)
           \<and> trace (loop_body F cfg e s)
               = trace s @ [Ev_read, Ev_row row] @ hdr
                   @ [Ev_sleep (cfg_interval cfg) (sig_sleep e)]
        else keep_running (loop_body F cfg e s) = (keep_running s \<and> \<not> sig_sampling e)
           \<and> trace (loop_body F cfg e s) = trace s @ [Ev_read, Ev_row row] @ hdr)"
proof -
  obtain ok cur where r: "read_net_stats (cfg_interface cfg) (proc_net_dev e) (mono_clock e)
      (current_stats s) = (ok, cur)"
    by (cases "read_net_stats (cfg_interface cfg) (proc_net_dev e) (mono_clock e)
      (current_stats s)")
  with assms read_ok_iff [of cfg e "current_stats s"] have ok: "ok" by simp
  show ?thesis
    using ok by (auto simp: r loop_body_def sleep_def loop_cond_def Let_def)
qed

lemma loop_body_quiet_ok:
  assumes "read_ok cfg e" and "quiet e" and "keep_running s"
  shows "keep_running (loop_body F cfg e s)
     \<and> iteration (loop_body F cfg e s) = iteration s + 1
     \<and> read_count (trace (loop_body F cfg e s)) = read_count (trace s) + 1
     \<and> row_count (trace (loop_body F cfg e s)) = row_count (trace s) + 1"
  using loop_body_ok [OF assms(1), of s F] assms(2,3)
  by (auto simp: quiet_def split: if_splits)

lemma loop_body_quiet_fail:
  assumes "\<not> read_ok cfg e" and "quiet e" and "keep_running s"
  shows "keep_running (loop_body F cfg e s)
     \<and> iteration (loop_body F cfg e s) = iteration s
     \<and> read_count (trace (loop_body F cfg e s)) = read_count (trace s) + 1
     \<and> row_count (trace (loop_body F cfg e s)) = row_count (trace s)"
  using assms(2,3) by (simp add: loop_body_fail [OF assms(1)] quiet_def)

lemma print_stats_no_previous:
  "rate_columns (print_stats F now cur None elapsed) = [''-'', ''-'', ''-'', ''-'']"
  by (simp add: print_stats_def rate_columns_def Let_def)

lemma print_stats_invalid_previous:
  "\<not> valid prev \<Longrightarrow>
     rate_columns (print_stats F now cur (Some prev) elapsed) = [''-'', ''-'', ''-'', ''-'']"
  by (simp add: print_stats_def rate_columns_def Let_def)

lemma print_stats_no_previous_indep:
  "print_stats F now cur None elapsed = print_stats F now cur None elapsed'"
  by (simp add: print_stats_def Let_def)

text \<open>
  Claim C5. While there is no valid previous snapshot, so on the first tick, a successful
  read is followed by a row rendered without a previous snapshot: its four rate columns
  are the marker \<open>-\<close>, never a number, and the row does not depend on the elapsed time.
  The same holds when \<open>print_stats\<close> is handed a previous snapshot that is not valid.
\<close>

theorem first_tick_unavailable:
  assumes "\<not> valid (previous_stats s)"
    and "fst (read_net_stats (cfg_interface cfg) (proc_net_dev e) (mono_clock e)
               (current_stats s))"
  shows "take 2 (drop (length (trace s)) (trace (loop_body F cfg e s)))
           = [Ev_read, Ev_row (print_stats F (wall_clock e)
                (current_stats (loop_body F cfg e s)) None (d_of_int F 0))]
     \<and> rate_columns (print_stats F (wall_clock e)
          (current_stats (loop_body F cfg e s)) None (d_of_int F 0))
         = [''-'', ''-'', ''-'', ''-'']
     \<and> rate_columns (print_stats F now cur None elapsed) = [''-'', ''-'', ''-'', ''-'']
     \<and> print_stats F now cur None elapsed = print_stats F now cur None elapsed'
     \<and> (\<not> valid prev \<longrightarrow>
          rate_columns (print_stats F now cur (Some prev) elapsed)
            = [''-'', ''-'', ''-'', ''-''])"
proof -
  have ok: "read_ok cfg e"
    using assms(2) by (simp add: read_ok_iff)
  from loop_body_ok [OF ok, of s F] assms(1)
  have "take 2 (drop (length (trace s)) (trace (loop_body F cfg e s)))
           = [Ev_read, Ev_row (print_stats F (wall_clock e)
                (current_stats (loop_body F cfg e s)) None (d_of_int F 0))]"
    by (auto split: if_splits)
  then show ?thesis
    using print_stats_no_previous [of F] print_stats_invalid_previous [of prev F now cur elapsed]
      print_stats_no_previous_indep [of F now cur elapsed elapsed']
    by simp
qed

theorem first_tick_unavailable_witness:
  "\<not> valid (previous_stats init_state)
   \<and> fst (read_net_stats (cfg_interface (eth0_cfg 3))
        (proc_net_dev (tick_at (Some (dev_ok ''1000'')) 10))
        (mono_clock (tick_at (Some (dev_ok ''1000'')) 10)) (current_stats init_state))
   \<and> take 2 (drop (length (trace init_state))
        (trace (loop_body exact_dbl (eth0_cfg 3) (tick_at (Some (dev_ok ''1000'')) 10)
           init_state)))
       = [Ev_read, Ev_row (print_stats exact_dbl []
            (current_stats (loop_body exact_dbl (eth0_cfg 3)
               (tick_at (Some (dev_ok ''1000'')) 10) init_state))
            None 0)]"
proof -
  let ?e = "tick_at (Some (dev_ok ''1000'')) 10"
  have h1: "\<not> valid (previous_stats init_state)"
    by (simp add: init_state_def zero_stats_def)
  have h2: "fst (read_net_stats (cfg_interface (eth0_cfg 3)) (proc_net_dev ?e)
      (mono_clock ?e) (current_stats init_state))"
    by code_simp
  have w: "wall_clock ?e = []" and z: "d_of_int exact_dbl 0 = 0"
    by (simp_all add: tick_at_def exact_dbl_def)
  from first_tick_unavailable [OF h1 h2, of exact_dbl]
  have "take 2 (drop (length (trace init_state))
        (trace (loop_body exact_dbl (eth0_cfg 3) ?e init_state)))
       = [Ev_read, Ev_row (print_stats exact_dbl (wall_clock ?e)
            (current_stats (loop_body exact_dbl (eth0_cfg 3) ?e init_state))
            None (d_of_int exact_dbl 0))]"
    by blast
  then have "take 2 (drop (length (trace init_state))
        (trace (loop_body exact_dbl (eth0_cfg 3) ?e init_state)))
       = [Ev_read, Ev_row (print_stats exact_dbl []
            (current_stats (loop_body exact_dbl (eth0_cfg 3) ?e init_state)) None 0)]"
    by (simp only: w z)
  with h1 h2 show ?thesis by (intro conjI)
qed

text \<open>
  Claim C6. A failed read, whether the source cannot be opened, no row matches or the
  matching row is malformed, returns false and leaves the snapshot it was given exactly
  as it was. In the poll loop the current and the previous snapshot and the iteration
  count are then unchanged, and the pass only warns and sleeps.
\<close>

theorem read_failure_leaves_state:
  assumes "\<not> fst (read_net_stats (cfg_interface cfg) (proc_net_dev e) (mono_clock e)
                 (current_stats s))"
  shows "read_net_stats (cfg_interface cfg) (proc_net_dev e) (mono_clock e) (current_stats s)
           = (False, current_stats s)
     \<and> current_stats (loop_body F cfg e s) = current_stats s
     \<and> previous_stats (loop_body F cfg e s) = previous_stats s
     \<and> iteration (loop_body F cfg e s) = iteration s
     \<and> trace (loop_body F cfg e s)
         = trace s @ [Ev_read, Ev_warning, Ev_sleep (cfg_interval cfg) (sig_sleep e)]
     \<and> (\<not> fst (parse_interface_line line iface stats) \<longrightarrow>
          snd (parse_interface_line line iface stats) = stats)
     \<and> (\<not> fst (read_net_stats iface proc clock stats) \<longrightarrow>
          snd (read_net_stats iface proc clock stats) = stats)
     \<and> read_net_stats iface None clock stats = (False, stats)"
proof -
  have nok: "\<not> read_ok cfg e"
    using assms by (simp add: read_ok_iff)
  show ?thesis
    using read_net_stats_fail [OF assms]
      read_net_stats_fail [of iface proc clock stats]
      parse_interface_line_fail [of line iface stats]
    by (auto simp: loop_body_fail [OF nok] read_net_stats_def)
qed

theorem read_failure_leaves_state_witness:
  "\<not> fst (read_net_stats (cfg_interface (eth0_cfg 3))
        (proc_net_dev (tick_at (Some dev_malformed) 10))
        (mono_clock (tick_at (Some dev_malformed) 10)) (current_stats init_state))
   \<and> current_stats (loop_body exact_dbl (eth0_cfg 3) (tick_at (Some dev_malformed) 10)
        init_state) = zero_stats
   \<and> previous_stats (loop_body exact_dbl (eth0_cfg 3) (tick_at (Some dev_malformed) 10)
        init_state) = zero_stats
   \<and> trace (loop_body exact_dbl (eth0_cfg 3) (tick_at (Some dev_malformed) 10) init_state)
       = [Ev_read, Ev_warning, Ev_sleep 2 False]"
proof -
  let ?e = "tick_at (Some dev_malformed) 10"
  have h: "\<not> fst (read_net_stats (cfg_interface (eth0_cfg 3)) (proc_net_dev ?e)
      (mono_clock ?e) (current_stats init_state))"
    by code_simp
  from read_failure_leaves_state [OF h, of exact_dbl]
  have "current_stats (loop_body exact_dbl (eth0_cfg 3) ?e init_state)
          = current_stats init_state"
    and "previous_stats (loop_body exact_dbl (eth0_cfg 3) ?e init_state)
          = previous_stats init_state"
    and "trace (loop_body exact_dbl (eth0_cfg 3) ?e init_state)
          = trace init_state
              @ [Ev_read, Ev_warning, Ev_sleep (cfg_interval (eth0_cfg 3)) (sig_sleep ?e)]"
    by blast+
  then have "current_stats (loop_body exact_dbl (eth0_cfg 3) ?e init_state) = zero_stats"
    and "previous_stats (loop_body exact_dbl (eth0_cfg 3) ?e init_state) = zero_stats"
    and "trace (loop_body exact_dbl (eth0_cfg 3) ?e init_state)
          = [Ev_read, Ev_warning, Ev_sleep 2 False]"
    by (simp_all add: init_state_def eth0_cfg_def tick_at_def)
  with h show ?thesis by (intro conjI)
qed

subsection \<open>Runs of the poll loop\<close>

lemma bounded_run_aux:
  assumes "keep_running s" and "0 \<le> iteration s"
    and "iteration s + int (length (filter (read_ok cfg) ticks)) = max_iterations cfg"
    and "\<forall>e \<in> set ticks. quiet e"
    and "ticks \<noteq> []" and "read_ok cfg (last ticks)"
  shows "\<exists>s'. poll_loop F cfg (ticks @ later) s = Some s'
     \<and> keep_running s'
     \<and> iteration s' = max_iterations cfg
     \<and> read_count (trace s') = read_count (trace s) + length ticks
     \<and> row_count (trace s') = row_count (trace s) + length (filter (read_ok cfg) ticks)"
  using assms
proof (induction ticks arbitrary: s)
  case Nil
  then show ?case by simp
next
  case (Cons e es)
  have "last (e # es) \<in> set (e # es)"
    by (rule last_in_set) simp
  with Cons.prems(6) have "1 \<le> length (filter (read_ok cfg) (e # es))"
    by (metis Suc_leI filter_empty_conv length_greater_0_conv One_nat_def)
  with Cons.prems(3) have lt: "iteration s < max_iterations cfg"
    by linarith
  with Cons.prems(1) have cond: "loop_cond cfg s"
    by (simp add: loop_cond_def)
  let ?s1 = "loop_body F cfg e s"
  have q: "quiet e" using Cons.prems(4) by simp
  have step: "poll_loop F cfg ((e # es) @ later) s = poll_loop F cfg (es @ later) ?s1"
    using cond by simp
  show ?case
  proof (cases "es = []")
    case True
    with Cons.prems(6) have ok: "read_ok cfg e" by simp
    note b = loop_body_quiet_ok [OF ok q Cons.prems(1), of F]
    have it: "iteration ?s1 = max_iterations cfg"
      using b Cons.prems(3) True ok by simp
    then have "\<not> loop_cond cfg ?s1"
      using Cons.prems(2) b by (simp add: loop_cond_def)
    then have "poll_loop F cfg (es @ later) ?s1 = Some ?s1"
      by (rule poll_loop_stop)
    then show ?thesis
      using step b it True ok by simp
  next
    case False
    then have last: "read_ok cfg (last es)" using Cons.prems(6) by simp
    have qs: "\<forall>e \<in> set es. quiet e" using Cons.prems(4) by simp
    show ?thesis
    proof (cases "read_ok cfg e")
      case True
      note b = loop_body_quiet_ok [OF True q Cons.prems(1), of F]
      have kr: "keep_running ?s1" and it0: "0 \<le> iteration ?s1"
        using b Cons.prems(2) by simp_all
      have cnt: "iteration ?s1 + int (length (filter (read_ok cfg) es)) = max_iterations cfg"
        using b Cons.prems(3) True by simp
      from Cons.IH [OF kr it0 cnt qs False last] obtain s' where
        "poll_loop F cfg (es @ later) ?s1 = Some s'" "keep_running s'"
        "iteration s' = max_iterations cfg"
        "read_count (trace s') = read_count (trace ?s1) + length es"
        "row_count (trace s') = row_count (trace ?s1) + length (filter (read_ok cfg) es)"
        by blast
      then show ?thesis
        using step b True by simp
    next
      case nok: False
      note b = loop_body_quiet_fail [OF nok q Cons.prems(1), of F]
      have kr: "keep_running ?s1" and it0: "0 \<le> iteration ?s1"
        using b Cons.prems(2) by simp_all
      have cnt: "iteration ?s1 + int (length (filter (read_ok cfg) es)) = max_iterations cfg"
        using b Cons.prems(3) nok by simp
      from Cons.IH [OF kr it0 cnt qs False last] obtain s' where
        "poll_loop F cfg (es @ later) ?s1 = Some s'" "keep_running s'"
        "iteration s' = max_iterations cfg"
        "read_count (trace s') = read_count (trace ?s1) + length es"
        "row_count (trace s') = row_count (trace ?s1) + length (filter (read_ok cfg) es)"
        by blast
      then show ?thesis
        using step b nok by simp
    qed
  qed
qed

lemma failing_reads_never_stop:
  "loop_cond cfg s \<Longrightarrow> \<forall>e \<in> set ticks. quiet e \<and> \<not> read_ok cfg e \<Longrightarrow>
     poll_loop F cfg ticks s = None"
proof (induction ticks arbitrary: s)
  case Nil
  then show ?case by simp
next
  case (Cons e es)
  then have nok: "\<not> read_ok cfg e" and q: "quiet e" by simp_all
  have "loop_cond cfg (loop_body F cfg e s)"
    using Cons.prems(1) q by (simp add: loop_body_fail [OF nok] loop_cond_def quiet_def)
  with Cons show ?case by simp
qed

text \<open>
  Claim C7, as amended. In a run bounded by \<open>n\<close> iterations (for instance 3) without
  any signal, the loop stops after exactly \<open>n\<close> successful samples, each rendered as a
  row. Failed reads are followed by a sleep and are not counted, so the number of read
  attempts is \<open>n\<close> plus the number of failed reads, exactly \<open>n\<close> when every read
  succeeds; while every read fails the loop does not stop. In general the loop stops at
  the first test of its condition at which the flag is cleared or the count of successful
  iterations has reached the maximum.
\<close>

theorem bounded_run_counts_successes:
  assumes "keep_running s" and "iteration s = 0"
    and "max_iterations cfg = int n" and "0 < n"
    and "\<forall>e \<in> set ticks. quiet e"
    and "length (filter (read_ok cfg) ticks) = n"
    and "read_ok cfg (last ticks)"
  shows "map_option (\<lambda>s'. (iteration s', row_count (trace s'), read_count (trace s')))
           (poll_loop F cfg (ticks @ later) s)
         = Some (int n, row_count (trace s) + n,
                 read_count (trace s) + n + length (filter (\<lambda>e. \<not> read_ok cfg e) ticks))
     \<and> ((\<forall>e \<in> set ticks. read_ok cfg e) \<longrightarrow> length ticks = n)
     \<and> (\<not> keep_running s0 \<or> (0 \<le> max_iterations cfg \<and> max_iterations cfg \<le> iteration s0) \<longrightarrow>
          poll_loop F cfg ticks0 s0 = Some s0)
     \<and> (loop_cond cfg s0 \<and> (\<forall>e \<in> set ticks0. quiet e \<and> \<not> read_ok cfg e) \<longrightarrow>
          poll_loop F cfg ticks0 s0 = None)"
proof (intro conjI impI)
  have ne: "ticks \<noteq> []"
    using assms(4,6) by auto
  have it: "0 \<le> iteration s"
    using assms(2) by simp
  have cnt: "iteration s + int (length (filter (read_ok cfg) ticks)) = max_iterations cfg"
    using assms(2,3,6) by simp
  from bounded_run_aux [OF assms(1) it cnt assms(5) ne assms(7), of F later]
  obtain s' where r: "poll_loop F cfg (ticks @ later) s = Some s'"
    "iteration s' = max_iterations cfg"
    "read_count (trace s') = read_count (trace s) + length ticks"
    "row_count (trace s') = row_count (trace s) + length (filter (read_ok cfg) ticks)"
    by blast
  have "length ticks = n + length (filter (\<lambda>e. \<not> read_ok cfg e) ticks)"
    using sum_length_filter_compl [of "read_ok cfg" ticks] assms(6) by simp
  with r assms(3,6)
  show "map_option (\<lambda>s'. (iteration s', row_count (trace s'), read_count (trace s')))
           (poll_loop F cfg (ticks @ later) s)
         = Some (int n, row_count (trace s) + n,
                 read_count (trace s) + n + length (filter (\<lambda>e. \<not> read_ok cfg e) ticks))"
    by simp
next
  assume "\<forall>e \<in> set ticks. read_ok cfg e"
  then have "filter (read_ok cfg) ticks = ticks"
    by simp
  with assms(6) show "length ticks = n"
    by simp
next
  assume "\<not> keep_running s0 \<or> (0 \<le> max_iterations cfg \<and> max_iterations cfg \<le> iteration s0)"
  then have "\<not> loop_cond cfg s0"
    by (auto simp: loop_cond_def)
  then show "poll_loop F cfg ticks0 s0 = Some s0"
    by (rule poll_loop_stop)
next
  assume "loop_cond cfg s0 \<and> (\<forall>e \<in> set ticks0. quiet e \<and> \<not> read_ok cfg e)"
  then show "poll_loop F cfg ticks0 s0 = None"
    using failing_reads_never_stop [of cfg s0 ticks0 F] by blast
qed

theorem bounded_run_counts_successes_witness:
  "keep_running init_state \<and> iteration init_state = 0
   \<and> max_iterations (eth0_cfg 3) = int 3 \<and> (0::nat) < 3
   \<and> list_all quiet run4
   \<and> length (filter (read_ok (eth0_cfg 3)) run4) = 3
   \<and> read_ok (eth0_cfg 3) (last run4)
   \<and> map_option (\<lambda>s'. (iteration s', row_count (trace s'), read_count (trace s')))
        (poll_loop exact_dbl (eth0_cfg 3) (run4 @ [tick_at None 18]) init_state)
       = Some (3, 3, 4)"
proof -
  have h1: "keep_running init_state" and h2: "iteration init_state = 0"
    by (simp_all add: init_state_def)
  have h3: "max_iterations (eth0_cfg 3) = int 3"
    by (simp add: eth0_cfg_def)
  have h4: "(0::nat) < 3" by simp
  have h5: "list_all quiet run4"
    by (simp add: run4_def quiet_def tick_at_def)
  have h6: "length (filter (read_ok (eth0_cfg 3)) run4) = 3" by code_simp
  have h7: "read_ok (eth0_cfg 3) (last run4)" by code_simp
  have h8: "length (filter (\<lambda>e. \<not> read_ok (eth0_cfg 3) e) run4) = 1" by code_simp
  from h5 have h5': "\<forall>e \<in> set run4. quiet e"
    by (simp add: list_all_iff)
  from bounded_run_counts_successes [OF h1 h2 h3 h4 h5' h6 h7, of exact_dbl "[tick_at None 18]"]
  have "map_option (\<lambda>s'. (iteration s', row_count (trace s'), read_count (trace s')))
        (poll_loop exact_dbl (eth0_cfg 3) (run4 @ [tick_at None 18]) init_state)
       = Some (int 3, row_count (trace init_state) + 3,
               read_count (trace init_state) + 3
                 + length (filter (\<lambda>e. \<not> read_ok (eth0_cfg 3) e) run4))"
    by blast
  then have "map_option (\<lambda>s'. (iteration s', row_count (trace s'), read_count (trace s')))
        (poll_loop exact_dbl (eth0_cfg 3) (run4 @ [tick_at None 18]) init_state)
       = Some (3, 3, 4)"
    by (simp add: h8 init_state_def)
  with h1 h2 h3 h4 h5 h6 h7 show ?thesis by (intro conjI)
qed

text \<open>
  The claim as first stated fails when a read fails: with a maximum of 3 and no signal,
  one failed read followed by three successful ones makes four sampling attempts, and
  after three attempts the loop has not stopped.
\<close>

theorem bounded_run_four_attempts:
  "max_iterations (eth0_cfg 3) = 3
   \<and> list_all quiet run4
   \<and> map_option (\<lambda>s'. read_count (trace s')) (poll_loop exact_dbl (eth0_cfg 3) run4 init_state)
       = Some 4
   \<and> map_option (\<lambda>s'. row_count (trace s')) (poll_loop exact_dbl (eth0_cfg 3) run4 init_state)
       = Some 3
   \<and> poll_loop exact_dbl (eth0_cfg 3) (take 3 run4) init_state = None"
  by code_simp

text \<open>
  Claim C8. When a signal is handled while the loop sleeps, the sleep is cut short, the
  loop condition fails at once and the loop stops in the state that pass produced: the
  ticks that follow are never read.
\<close>

theorem cancel_during_sleep:
  assumes "loop_cond cfg s" and "sig_sleep e"
    and "\<not> read_ok cfg e
         \<or> (\<not> sig_sampling e \<and> (max_iterations cfg < 0 \<or> iteration s + 1 < max_iterations cfg))"
  shows "poll_loop F cfg (e # later) s = Some (loop_body F cfg e s)
     \<and> last (trace (loop_body F cfg e s)) = Ev_sleep (cfg_interval cfg) True
     \<and> \<not> keep_running (loop_body F cfg e s)
     \<and> read_count (trace (loop_body F cfg e s)) = read_count (trace s) + 1"
proof -
  have kr: "keep_running s"
    using assms(1) by (simp add: loop_cond_def)
  have body: "last (trace (loop_body F cfg e s)) = Ev_sleep (cfg_interval cfg) True
     \<and> \<not> keep_running (loop_body F cfg e s)
     \<and> read_count (trace (loop_body F cfg e s)) = read_count (trace s) + 1"
  proof (cases "read_ok cfg e")
    case False
    then show ?thesis
      using assms(2) by (simp add: loop_body_fail)
  next
    case True
    with assms(3) have c: "keep_running s \<and> \<not> sig_sampling e
        \<and> (max_iterations cfg < 0 \<or> iteration s + 1 < max_iterations cfg)"
      using kr by simp
    from loop_body_ok [OF True, of s F] c assms(2) show ?thesis
      by (auto split: if_splits)
  qed
  then have "\<not> loop_cond cfg (loop_body F cfg e s)"
    by (simp add: loop_cond_def)
  then have "poll_loop F cfg later (loop_body F cfg e s) = Some (loop_body F cfg e s)"
    by (rule poll_loop_stop)
  with assms(1) body show ?thesis
    by simp
qed

theorem cancel_during_sleep_witness:
  "loop_cond (eth0_cfg (- 1)) init_state \<and> sig_sleep tick_interrupted
   \<and> \<not> sig_sampling tick_interrupted \<and> max_iterations (eth0_cfg (- 1)) < 0
   \<and> map_option (\<lambda>s'. (keep_running s', read_count (trace s'), last (trace s')))
        (poll_loop exact_dbl (eth0_cfg (- 1))
           [tick_interrupted, tick_at (Some (dev_ok ''3048'')) 12] init_state)
       = Some (False, 1, Ev_sleep 2 True)"
proof -
  have h1: "loop_cond (eth0_cfg (- 1)) init_state"
    by (simp add: loop_cond_def init_state_def eth0_cfg_def)
  have h2: "sig_sleep tick_interrupted"
    and h3: "\<not> sig_sampling tick_interrupted"
    and h4: "max_iterations (eth0_cfg (- 1)) < 0"
    by (simp_all add: tick_interrupted_def tick_at_def eth0_cfg_def)
  from h3 h4 have h5: "\<not> read_ok (eth0_cfg (- 1)) tick_interrupted
      \<or> (\<not> sig_sampling tick_interrupted
          \<and> (max_iterations (eth0_cfg (- 1)) < 0
              \<or> iteration init_state + 1 < max_iterations (eth0_cfg (- 1))))"
    by simp
  from cancel_during_sleep [OF h1 h2 h5, of exact_dbl "[tick_at (Some (dev_ok ''3048'')) 12]"]
  have "map_option (\<lambda>s'. (keep_running s', read_count (trace s'), last (trace s')))
        (poll_loop exact_dbl (eth0_cfg (- 1))
           [tick_interrupted, tick_at (Some (dev_ok ''3048'')) 12] init_state)
       = Some (False, read_count (trace init_state) + 1,
               Ev_sleep (cfg_interval (eth0_cfg (- 1))) True)"
    by simp
  then have "map_option (\<lambda>s'. (keep_running s', read_count (trace s'), last (trace s')))
        (poll_loop exact_dbl (eth0_cfg (- 1))
           [tick_interrupted, tick_at (Some (dev_ok ''3048'')) 12] init_state)
       = Some (False, 1, Ev_sleep 2 True)"
    by (simp add: init_state_def eth0_cfg_def)
  with h1 h2 h3 h4 show ?thesis by (intro conjI)
qed

end
